theory Spec2Isabelle
  imports Main "HOL-Library.Multiset"
begin

section \<open>Values, tasks and outcomes\<close>

text \<open>
  JavaScript values, as far as the queue looks at them: the queue tests the error it is
  handed for truthiness (\<^verbatim>\<open>if (error)\<close>) and otherwise passes values through.
  A task may throw, or reject with, any value, not only an \<^verbatim>\<open>Error\<close> object.
\<close>

datatype jsval =
    JUndefined
  | JNull
  | JBool bool
  | JNum int
  | JStr string
  | JError string
  | JObj "(string \<times> jsval) list"

fun truthy :: "jsval \<Rightarrow> bool" where
  "truthy JUndefined = False"
| "truthy JNull = False"
| "truthy (JBool b) = b"
| "truthy (JNum n) = (n \<noteq> 0)"
| "truthy (JStr s) = (s \<noteq> [])"
| "truthy (JError m) = True"
| "truthy (JObj fs) = True"

text \<open>
  What the operation of a task does when the worker calls and awaits it.
  \<open>Returns v\<close>: the call returns \<open>v\<close>, or a promise that fulfils with \<open>v\<close>; awaiting it
  gives \<open>v\<close>, later. \<open>Throws e\<close>: the call returns a promise that rejects with \<open>e\<close>, as
  an \<^verbatim>\<open>async\<close> function that throws does; awaiting it throws \<open>e\<close>, later.
  \<open>ThrowsAtCall e\<close>: the call itself throws \<open>e\<close>, as a plain function that throws does;
  the worker catches it before it has awaited anything.
\<close>

datatype settle = Returns jsval | Throws jsval | ThrowsAtCall jsval

text \<open>
  \<^verbatim>\<open>DeferCallback\<close> of \<^verbatim>\<open>src/types.ts\<close>: a function (with the \<^verbatim>\<open>name\<close>
  property every function has, possibly empty), or an object with a \<^verbatim>\<open>name\<close> and a
  \<^verbatim>\<open>run\<close> method. The second argument is what the operation does when it is called.
\<close>

datatype DeferCallback =
    Callable string settle
  | Named string settle

text \<open>The object handed to the hooks and notifiers: \<^verbatim>\<open>{ name, response }\<close>, or
  \<^verbatim>\<open>{ name }\<close> alone on the error path (no \<^verbatim>\<open>response\<close> property).\<close>

record task_result =
  name :: string
  response :: "jsval option"

text \<open>\<^verbatim>\<open>PromiseSettledResult\<close>: \<^verbatim>\<open>{status: 'fulfilled', value}\<close> or
  \<^verbatim>\<open>{status: 'rejected', reason}\<close>.\<close>

datatype settled_result =
    StatusFulfilled task_result
  | StatusRejected jsval

text \<open>The state of the promise inside a \<^verbatim>\<open>Deferred\<close>.\<close>

datatype promise =
    Pending
  | Resolved settled_result
  | Rejected jsval

text \<open>
  A hook is a function assigned by the caller; it is known by its identity. The hooks are
  the caller's code: their calls are recorded, in order, together with the calls the worker
  makes to the operation of a task. Hooks are taken to return normally: the specification
  leaves a hook that throws to the caller.
\<close>

type_synonym hook = nat

datatype operation = CallItself | CallRun

datatype event =
    TaskAddedCalled hook DeferCallback
  | TaskCompletedCalled hook task_result
  | OnErrorCalled hook jsval task_result
  | DrainedCalled hook
  | Invoked operation DeferCallback

section \<open>The bounded executor\<close>

text \<open>
  Modelled from the spec: the state of the bounded executor (the \<^verbatim>\<open>fastq\<close> package, an
  external collaborator whose code is not part of the repository). The spec, sections 4.3
  and 6, gives its contract: it accepts a task at the back or the front of its pending
  order, starts tasks while fewer than \<^verbatim>\<open>concurrency\<close> are running and it is not paused,
  reports the number of pending tasks and whether it is idle, calls its \<^verbatim>\<open>drain\<close> slot
  when it becomes fully idle, and on \<^verbatim>\<open>killAndDrain\<close> discards the pending tasks, calls
  \<^verbatim>\<open>drain\<close> once and resets the slot to a no-op. \<open>None\<close> in the slot is the no-op.
  A task is running from the call of the worker until the worker has called \<^verbatim>\<open>done\<close>.
\<close>

record executor =
  pending :: "DeferCallback list"
  running :: "DeferCallback list"
  paused :: bool
  concurrency :: nat
  drain :: "hook option"

section \<open>The worker\<close>

text \<open>
  The worker given to the executor by the constructor:
  \<^verbatim>\<open>typeof cb === 'function' ? cb() : cb.run()\<close> picks the operation,
  \<^verbatim>\<open>cb.name\<close> the reported name.
\<close>

fun invoke :: "DeferCallback \<Rightarrow> operation \<times> settle" where
  "invoke (Callable n b) = (CallItself, b)"
| "invoke (Named n b) = (CallRun, b)"

fun cb_name :: "DeferCallback \<Rightarrow> string" where
  "cb_name (Callable n b) = n"
| "cb_name (Named n b) = n"

text \<open>The arguments the worker passes to \<^verbatim>\<open>done\<close>: the \<^verbatim>\<open>try\<close> branch passes
  \<^verbatim>\<open>null\<close> and the response, the \<^verbatim>\<open>catch\<close> branch the caught value and the name
  alone, whether the value was thrown by the call or by the \<^verbatim>\<open>await\<close>.\<close>

definition worker :: "DeferCallback \<Rightarrow> jsval \<times> task_result" where
  "worker cb =
     (case snd (invoke cb) of
        Returns r \<Rightarrow> (JNull, \<lparr>name = cb_name cb, response = Some r\<rparr>)
      | Throws e \<Rightarrow> (e, \<lparr>name = cb_name cb, response = None\<rparr>)
      | ThrowsAtCall e \<Rightarrow> (e, \<lparr>name = cb_name cb, response = None\<rparr>))"

text \<open>What the worker does at once when the executor calls it with a task: it calls the
  task's operation.\<close>

definition worker_start :: "DeferCallback \<Rightarrow> event list" where
  "worker_start cb = [Invoked (fst (invoke cb)) cb]"

text \<open>
  Whether the worker calls \<^verbatim>\<open>done\<close> before its own call returns. The worker is an
  \<^verbatim>\<open>async\<close> function: it runs up to its first \<^verbatim>\<open>await\<close> inside the call. When the
  operation throws at the call, the \<^verbatim>\<open>await\<close> is not reached and the \<^verbatim>\<open>catch\<close> branch
  runs at once. Otherwise the worker is suspended at the \<^verbatim>\<open>await\<close>, and calls
  \<^verbatim>\<open>done\<close> when the operation has settled.
\<close>

definition settles_at_call :: "DeferCallback \<Rightarrow> bool" where
  "settles_at_call cb =
     (case snd (invoke cb) of
        Returns r \<Rightarrow> False
      | Throws e \<Rightarrow> False
      | ThrowsAtCall e \<Rightarrow> True)"

section \<open>DeferQueue\<close>

text \<open>
  The state of a \<^verbatim>\<open>DeferQueue\<close>: its private fields and hooks, the promises of the
  \<^verbatim>\<open>Deferred\<close> objects it has created (a \<^verbatim>\<open>Deferred\<close> is known by its index), and
  the record of the calls made to the caller's code.
\<close>

record DeferQueue =
  drainCallback :: "hook option"
  fastQueue :: executor
  notifiers :: "nat list"
  onError :: "hook option"
  taskCompleted :: "hook option"
  taskAdded :: "hook option"
  promises :: "promise list"
  trace :: "event list"

text \<open>\<^verbatim>\<open>Array.prototype.shift\<close>: the first element, or undefined on an empty array.\<close>

fun shift :: "'a list \<Rightarrow> 'a option \<times> 'a list" where
  "shift [] = (None, [])"
| "shift (x # xs) = (Some x, xs)"

text \<open>\<^verbatim>\<open>deferred.resolve(v)\<close> and \<^verbatim>\<open>deferred.reject(r)\<close>: a promise settles once;
  later calls do nothing.\<close>

definition deferred_resolve :: "nat \<Rightarrow> settled_result \<Rightarrow> promise list \<Rightarrow> promise list" where
  "deferred_resolve d v ps =
     (if d < length ps \<and> ps ! d = Pending then ps[d := Resolved v] else ps)"

definition deferred_reject :: "nat \<Rightarrow> jsval \<Rightarrow> promise list \<Rightarrow> promise list" where
  "deferred_reject d r ps =
     (if d < length ps \<and> ps ! d = Pending then ps[d := Rejected r] else ps)"

definition emit :: "event list \<Rightarrow> DeferQueue \<Rightarrow> DeferQueue" where
  "emit es q = q\<lparr>trace := trace q @ es\<rparr>"

text \<open>\<^verbatim>\<open>#notifier\<close>, the completion handler passed to the executor with every task.\<close>

definition notifier :: "jsval \<Rightarrow> task_result \<Rightarrow> DeferQueue \<Rightarrow> DeferQueue" where
  "notifier error taskResult q =
     (let (awaitingNotifier, rest) = shift (notifiers q);
          q1 = q\<lparr>notifiers := rest\<rparr>
      in if truthy error then
           (let q2 = (case onError q1 of
                        Some h \<Rightarrow> emit [OnErrorCalled h error taskResult] q1
                      | None \<Rightarrow> q1)
            in case awaitingNotifier of
                 Some d \<Rightarrow> q2\<lparr>promises := deferred_resolve d (StatusRejected error) (promises q2)\<rparr>
               | None \<Rightarrow> q2)
         else
           (let q2 = (case taskCompleted q1 of
                        Some h \<Rightarrow> emit [TaskCompletedCalled h taskResult] q1
                      | None \<Rightarrow> q1)
            in case awaitingNotifier of
                 Some d \<Rightarrow> q2\<lparr>promises := deferred_resolve d (StatusFulfilled taskResult) (promises q2)\<rparr>
               | None \<Rightarrow> q2))"

text \<open>\<^verbatim>\<open>createNotifier\<close>: a new \<^verbatim>\<open>Deferred\<close>, pushed on \<^verbatim>\<open>#notifiers\<close>; its promise
  is returned.\<close>

definition createNotifier :: "DeferQueue \<Rightarrow> nat \<times> DeferQueue" where
  "createNotifier q =
     (let deferred = length (promises q)
      in (deferred, q\<lparr>promises := promises q @ [Pending],
                       notifiers := notifiers q @ [deferred]\<rparr>))"

text \<open>The constructor: \<^verbatim>\<open>options?.concurrency ?? 10\<close>; every hook unassigned, the
  executor's \<^verbatim>\<open>drain\<close> slot a no-op. The spec asks for a concurrency of at least 1.\<close>

definition new_DeferQueue :: "nat option \<Rightarrow> DeferQueue" where
  "new_DeferQueue options =
     \<lparr>drainCallback = None,
      fastQueue = \<lparr>pending = [], running = [], paused = False,
                   concurrency = (case options of Some c \<Rightarrow> c | None \<Rightarrow> 10),
                   drain = None\<rparr>,
      notifiers = [],
      onError = None,
      taskCompleted = None,
      taskAdded = None,
      promises = [],
      trace = []\<rparr>"

text \<open>The \<^verbatim>\<open>drained\<close> accessors.\<close>

definition get_drained :: "DeferQueue \<Rightarrow> hook option" where
  "get_drained q = drain (fastQueue q)"

definition set_drained :: "hook \<Rightarrow> DeferQueue \<Rightarrow> DeferQueue" where
  "set_drained callback q =
     q\<lparr>drainCallback := Some callback,
       fastQueue := (fastQueue q)\<lparr>drain := Some callback\<rparr>\<rparr>"

section \<open>Operations of the executor\<close>

text \<open>
  The operations of the bounded executor, which the repository takes from the
  \<^verbatim>\<open>fastq\<close> package. The executor calls the worker of the queue, and the worker calls
  the executor's completion callback, which calls \<^verbatim>\<open>#notifier\<close> and then releases the
  slot; so the operations act on the state of the whole queue.
\<close>

text \<open>Modelled from the spec: the executor (\<^verbatim>\<open>fastq\<close>, not part of the repository)
  calling the function in its \<^verbatim>\<open>drain\<close> slot.\<close>

definition call_drain :: "executor \<Rightarrow> event list" where
  "call_drain fq = (case drain fq of None \<Rightarrow> [] | Some h \<Rightarrow> [DrainedCalled h])"

text \<open>
  Modelled from the spec: the executor (\<^verbatim>\<open>fastq\<close>, not part of the repository) giving
  free slots to the pending tasks \<open>ts\<close>, from the front of the pending order. It calls the
  worker with the task and the completion callback. A task that settles inside that call
  has its completion delivered to \<^verbatim>\<open>#notifier\<close> at once and its slot goes to the next
  pending task; any other task is running from then on. When no task is left pending
  after a completion and none is running, the executor calls its \<^verbatim>\<open>drain\<close> slot.
\<close>

fun fq_next :: "DeferCallback list \<Rightarrow> DeferQueue \<Rightarrow> DeferQueue" where
  "fq_next [] q =
     (let q1 = q\<lparr>fastQueue := (fastQueue q)\<lparr>pending := []\<rparr>\<rparr>
      in if running (fastQueue q1) = [] then emit (call_drain (fastQueue q1)) q1 else q1)"
| "fq_next (t # ts) q =
     (if length (running (fastQueue q)) < concurrency (fastQueue q)
      then (let q1 = emit (worker_start t) (q\<lparr>fastQueue := (fastQueue q)\<lparr>pending := ts\<rparr>\<rparr>)
            in if settles_at_call t
               then fq_next ts (notifier (fst (worker t)) (snd (worker t)) q1)
               else fq_next ts
                      (q1\<lparr>fastQueue := (fastQueue q1)\<lparr>running := running (fastQueue q1) @ [t]\<rparr>\<rparr>))
      else q\<lparr>fastQueue := (fastQueue q)\<lparr>pending := t # ts\<rparr>\<rparr>)"

text \<open>Modelled from the spec: the executor (\<^verbatim>\<open>fastq\<close>, not part of the repository)
  after the completion callback of a task has returned and the task has left the running
  set: unless it is paused with tasks pending, the pending tasks take the free slot, and
  \<^verbatim>\<open>drain\<close> is called if no task is running and none pending.\<close>

definition fq_release :: "DeferQueue \<Rightarrow> DeferQueue" where
  "fq_release q =
     (if paused (fastQueue q) \<and> pending (fastQueue q) \<noteq> [] then q
      else fq_next (pending (fastQueue q)) q)"

text \<open>Modelled from the spec: the executor (\<^verbatim>\<open>fastq\<close>, not part of the repository)
  starting a submitted task at once: it calls the worker with the task and the completion
  callback. If the task settles inside that call, its completion is delivered to
  \<^verbatim>\<open>#notifier\<close> and the slot is released at once; otherwise the task is running from
  then on.\<close>

definition fq_start :: "DeferCallback \<Rightarrow> DeferQueue \<Rightarrow> DeferQueue" where
  "fq_start t q =
     (let q1 = emit (worker_start t) q
      in if settles_at_call t
         then fq_release (notifier (fst (worker t)) (snd (worker t)) q1)
         else q1\<lparr>fastQueue := (fastQueue q1)\<lparr>running := running (fastQueue q1) @ [t]\<rparr>\<rparr>)"

text \<open>Modelled from the spec: \<^verbatim>\<open>push(task, onSettle)\<close> of the executor (\<^verbatim>\<open>fastq\<close>,
  not part of the repository): the task is started at once if a slot is free and the
  executor is not paused, and goes to the back of the pending order otherwise.\<close>

definition fq_push :: "DeferCallback \<Rightarrow> DeferQueue \<Rightarrow> DeferQueue" where
  "fq_push t q =
     (if concurrency (fastQueue q) \<le> length (running (fastQueue q)) \<or> paused (fastQueue q)
      then q\<lparr>fastQueue := (fastQueue q)\<lparr>pending := pending (fastQueue q) @ [t]\<rparr>\<rparr>
      else fq_start t q)"

text \<open>Modelled from the spec: \<^verbatim>\<open>unshift(task, onSettle)\<close> of the executor
  (\<^verbatim>\<open>fastq\<close>, not part of the repository): as \<^verbatim>\<open>push\<close>, but a task that has to
  wait goes to the front of the pending order.\<close>

definition fq_unshift :: "DeferCallback \<Rightarrow> DeferQueue \<Rightarrow> DeferQueue" where
  "fq_unshift t q =
     (if concurrency (fastQueue q) \<le> length (running (fastQueue q)) \<or> paused (fastQueue q)
      then q\<lparr>fastQueue := (fastQueue q)\<lparr>pending := t # pending (fastQueue q)\<rparr>\<rparr>
      else fq_start t q)"

text \<open>Modelled from the spec: \<^verbatim>\<open>pause()\<close> of the executor (\<^verbatim>\<open>fastq\<close>, not part of
  the repository): no task is started from now on; running tasks go on.\<close>

definition fq_pause :: "DeferQueue \<Rightarrow> DeferQueue" where
  "fq_pause q = q\<lparr>fastQueue := (fastQueue q)\<lparr>paused := True\<rparr>\<rparr>"

text \<open>Modelled from the spec: \<^verbatim>\<open>resume()\<close> of the executor (\<^verbatim>\<open>fastq\<close>, not part
  of the repository): pending tasks are started again, within the concurrency limit.\<close>

definition fq_resume :: "DeferQueue \<Rightarrow> DeferQueue" where
  "fq_resume q =
     (let q1 = q\<lparr>fastQueue := (fastQueue q)\<lparr>paused := False\<rparr>\<rparr>
      in case pending (fastQueue q1) of [] \<Rightarrow> q1 | t # ts \<Rightarrow> fq_next (t # ts) q1)"

text \<open>Modelled from the spec: \<^verbatim>\<open>length()\<close> of the executor (\<^verbatim>\<open>fastq\<close>, not part
  of the repository): the number of tasks not yet started.\<close>

definition fq_length :: "executor \<Rightarrow> nat" where
  "fq_length fq = length (pending fq)"

text \<open>Modelled from the spec: \<^verbatim>\<open>idle()\<close> of the executor (\<^verbatim>\<open>fastq\<close>, not part of
  the repository): no task is running and none is pending.\<close>

definition fq_idle :: "executor \<Rightarrow> bool" where
  "fq_idle fq = (running fq = [] \<and> pending fq = [])"

text \<open>Modelled from the spec: \<^verbatim>\<open>killAndDrain()\<close> of the executor (\<^verbatim>\<open>fastq\<close>, not
  part of the repository): the pending tasks are discarded, the function in the
  \<^verbatim>\<open>drain\<close> slot is called once, and the slot is reset to the no-op.\<close>

definition fq_killAndDrain :: "DeferQueue \<Rightarrow> DeferQueue" where
  "fq_killAndDrain q =
     emit (call_drain (fastQueue q)) (q\<lparr>fastQueue := (fastQueue q)\<lparr>pending := [], drain := None\<rparr>\<rparr>)"

section \<open>Methods of the queue\<close>

text \<open>\<^verbatim>\<open>push\<close> and \<^verbatim>\<open>unshift\<close> return \<^verbatim>\<open>this\<close>: the queue, in its new state.\<close>

definition push :: "DeferCallback \<Rightarrow> DeferQueue \<Rightarrow> DeferQueue" where
  "push task q =
     (let q1 = (case taskAdded q of Some h \<Rightarrow> emit [TaskAddedCalled h task] q | None \<Rightarrow> q)
      in fq_push task q1)"

definition unshift :: "DeferCallback \<Rightarrow> DeferQueue \<Rightarrow> DeferQueue" where
  "unshift task q =
     (let q1 = (case taskAdded q of Some h \<Rightarrow> emit [TaskAddedCalled h task] q | None \<Rightarrow> q)
      in fq_unshift task q1)"

definition pause :: "DeferQueue \<Rightarrow> DeferQueue" where
  "pause q = fq_pause q"

definition resume :: "DeferQueue \<Rightarrow> DeferQueue" where
  "resume q = fq_resume q"

definition isIdle :: "DeferQueue \<Rightarrow> bool" where
  "isIdle q = fq_idle (fastQueue q)"

definition size_q :: "DeferQueue \<Rightarrow> nat" where
  "size_q q = fq_length (fastQueue q)"

definition kill :: "DeferQueue \<Rightarrow> DeferQueue" where
  "kill q =
     (let q1 = fq_killAndDrain q
      in case drainCallback q1 of
           Some cb \<Rightarrow> q1\<lparr>fastQueue := (fastQueue q1)\<lparr>drain := Some cb\<rparr>\<rparr>
         | None \<Rightarrow> q1)"

text \<open>
  The operation of the running task at index \<open>i\<close> settles: the worker, suspended at its
  \<^verbatim>\<open>await\<close>, goes on and passes the outcome to \<^verbatim>\<open>done\<close>; the executor calls
  \<^verbatim>\<open>#notifier\<close> and then releases the slot. Nothing happens when no such task is running.
\<close>

definition settle_task :: "nat \<Rightarrow> DeferQueue \<Rightarrow> DeferQueue" where
  "settle_task i q =
     (if i < length (running (fastQueue q))
      then (let (error, taskResult) = worker (running (fastQueue q) ! i);
                q1 = notifier error taskResult q;
                q2 = q1\<lparr>fastQueue := (fastQueue q1)
                        \<lparr>running := take i (running (fastQueue q1)) @
                                    drop (Suc i) (running (fastQueue q1))\<rparr>\<rparr>
            in fq_release q2)
      else q)"

text \<open>What can happen to a queue, and a run of such steps.\<close>

datatype step =
    Push DeferCallback
  | Unshift DeferCallback
  | CreateNotifier
  | Pause
  | Resume
  | Kill
  | Settle nat
  | SetDrained hook
  | SetOnError "hook option"
  | SetTaskCompleted "hook option"
  | SetTaskAdded "hook option"

fun do_step :: "step \<Rightarrow> DeferQueue \<Rightarrow> DeferQueue" where
  "do_step (Push t) q = push t q"
| "do_step (Unshift t) q = unshift t q"
| "do_step CreateNotifier q = snd (createNotifier q)"
| "do_step Pause q = pause q"
| "do_step Resume q = resume q"
| "do_step Kill q = kill q"
| "do_step (Settle i) q = settle_task i q"
| "do_step (SetDrained h) q = set_drained h q"
| "do_step (SetOnError h) q = q\<lparr>onError := h\<rparr>"
| "do_step (SetTaskCompleted h) q = q\<lparr>taskCompleted := h\<rparr>"
| "do_step (SetTaskAdded h) q = q\<lparr>taskAdded := h\<rparr>"

fun run :: "step list \<Rightarrow> DeferQueue \<Rightarrow> DeferQueue" where
  "run [] q = q"
| "run (s # ss) q = run ss (do_step s q)"

section \<open>Notions used to state the properties\<close>

text \<open>Every \<^verbatim>\<open>Deferred\<close> on the waiting list exists, occurs once, and is unsettled.\<close>

definition notifiers_pending :: "DeferQueue \<Rightarrow> bool" where
  "notifiers_pending q =
     (distinct (notifiers q) \<and>
      (\<forall>d \<in> set (notifiers q). d < length (promises q) \<and> promises q ! d = Pending))"

text \<open>The outcome a completion carries, and the hook calls it leads to.\<close>

definition outcome :: "jsval \<Rightarrow> task_result \<Rightarrow> settled_result" where
  "outcome error taskResult =
     (if truthy error then StatusRejected error else StatusFulfilled taskResult)"

definition hook_calls :: "jsval \<Rightarrow> task_result \<Rightarrow> DeferQueue \<Rightarrow> event list" where
  "hook_calls error taskResult q =
     (if truthy error
      then (case onError q of Some h \<Rightarrow> [OnErrorCalled h error taskResult] | None \<Rightarrow> [])
      else (case taskCompleted q of Some h \<Rightarrow> [TaskCompletedCalled h taskResult] | None \<Rightarrow> []))"

text \<open>
  A history of the waiting list: calls of \<^verbatim>\<open>createNotifier\<close> and completions
  delivered to \<^verbatim>\<open>#notifier\<close>, in the order they happen.
\<close>

datatype nevent = NCreate | NComplete jsval task_result

fun nstep :: "nevent \<Rightarrow> DeferQueue \<Rightarrow> DeferQueue" where
  "nstep NCreate q = snd (createNotifier q)"
| "nstep (NComplete error taskResult) q = notifier error taskResult q"

fun nrun :: "nevent list \<Rightarrow> DeferQueue \<Rightarrow> DeferQueue" where
  "nrun [] q = q"
| "nrun (e # es) q = nrun es (nstep e q)"

fun completions :: "nevent list \<Rightarrow> (jsval \<times> task_result) list" where
  "completions [] = []"
| "completions (NCreate # es) = completions es"
| "completions (NComplete error taskResult # es) = (error, taskResult) # completions es"

text \<open>
  The pairing in the words of the specification: the completion that resolves the N-th
  notifier created (counting from 1) is the N-th completion after the creation of that
  notifier. \<open>after_creation N es\<close> is what follows the N-th creation in \<open>es\<close>.
\<close>

fun after_creation :: "nat \<Rightarrow> nevent list \<Rightarrow> nevent list" where
  "after_creation N [] = []"
| "after_creation N (NCreate # es) = (if N = 1 then es else after_creation (N - 1) es)"
| "after_creation N (NComplete error taskResult # es) = after_creation N es"

definition claimed_completion :: "nat \<Rightarrow> nevent list \<Rightarrow> (jsval \<times> task_result) option" where
  "claimed_completion N es =
     (let cs = completions (after_creation N es)
      in if 1 \<le> N \<and> N \<le> length cs then Some (cs ! (N - 1)) else None)"

text \<open>Whether the executor queues a submitted task instead of starting it at once.\<close>

definition queued :: "DeferQueue \<Rightarrow> bool" where
  "queued q = (concurrency (fastQueue q) \<le> length (running (fastQueue q)) \<or> paused (fastQueue q))"

definition added_calls :: "DeferCallback \<Rightarrow> DeferQueue \<Rightarrow> event list" where
  "added_calls task q = (case taskAdded q of Some h \<Rightarrow> [TaskAddedCalled h task] | None \<Rightarrow> [])"

text \<open>The tasks whose operation has been called, in the order of the calls.\<close>

fun started_tasks :: "event list \<Rightarrow> DeferCallback list" where
  "started_tasks [] = []"
| "started_tasks (Invoked opn t # es) = t # started_tasks es"
| "started_tasks (e # es) = started_tasks es"

text \<open>Steps that neither submit nor discard tasks.\<close>

fun quiet :: "step \<Rightarrow> bool" where
  "quiet (Push t) = False"
| "quiet (Unshift t) = False"
| "quiet Kill = False"
| "quiet s = True"

text \<open>The hook the caller assigned last to \<^verbatim>\<open>drained\<close>, if any.\<close>

fun assigned_drained :: "step list \<Rightarrow> hook option \<Rightarrow> hook option" where
  "assigned_drained [] h = h"
| "assigned_drained (SetDrained g # ss) h = assigned_drained ss (Some g)"
| "assigned_drained (s # ss) h = assigned_drained ss h"

text \<open>The completion the worker delivers for a task.\<close>

definition completion_of :: "DeferCallback \<Rightarrow> nevent" where
  "completion_of t = NComplete (fst (worker t)) (snd (worker t))"

text \<open>The free slots of the executor, and a list without its element at an index.\<close>

definition free_slots :: "executor \<Rightarrow> nat" where
  "free_slots fq = concurrency fq - length (running fq)"

definition without :: "nat \<Rightarrow> 'a list \<Rightarrow> 'a list" where
  "without i xs = take i xs @ drop (Suc i) xs"

text \<open>How many of the pending tasks \<open>ts\<close> the executor starts when \<open>free\<close> slots are free:
  a task that settles inside the call of the worker gives its slot to the next one.\<close>

fun taken :: "nat \<Rightarrow> DeferCallback list \<Rightarrow> nat" where
  "taken free [] = 0"
| "taken free (t # ts) =
     (if free = 0 then 0
      else Suc (taken (if settles_at_call t then free else free - 1) ts))"

text \<open>The order in which the completions of the tasks \<open>rs\<close>, running in that order, and of
  a task submitted after them reach \<^verbatim>\<open>#notifier\<close>, when the running tasks settle oldest
  first and \<open>c\<close> is the concurrency: a task that settles inside the call of the worker
  completes as soon as it gets a slot.\<close>

definition completion_order :: "nat \<Rightarrow> DeferCallback list \<Rightarrow> DeferCallback \<Rightarrow> DeferCallback list" where
  "completion_order c rs task =
     (if settles_at_call task
      then (if length rs < c then task # rs else take 1 rs @ task # drop 1 rs)
      else rs @ [task])"

text \<open>The hooks called as \<^verbatim>\<open>drained\<close>, in the order of the calls.\<close>

fun drained_calls :: "event list \<Rightarrow> hook list" where
  "drained_calls [] = []"
| "drained_calls (DrainedCalled h # es) = h # drained_calls es"
| "drained_calls (e # es) = drained_calls es"


text \<open>The tasks the executor starts when it releases a slot.\<close>

definition newly_started :: "executor \<Rightarrow> DeferCallback list" where
  "newly_started fq =
     (if paused fq \<and> pending fq \<noteq> [] then []
      else take (taken (free_slots fq) (pending fq)) (pending fq))"

text \<open>The tasks the executor starts when it starts a submitted task at once: the task, and
  the pending tasks that take its slot if it settles inside the call of the worker.\<close>

definition started_by_submit :: "DeferCallback \<Rightarrow> executor \<Rightarrow> DeferCallback list" where
  "started_by_submit t fq = t # (if settles_at_call t then newly_started fq else [])"

text \<open>The tasks the executor starts on \<^verbatim>\<open>resume\<close>, and the executor once the running
  task at an index has left the running set.\<close>

definition started_by_resume :: "executor \<Rightarrow> DeferCallback list" where
  "started_by_resume fq = take (taken (free_slots fq) (pending fq)) (pending fq)"

definition after_settle :: "nat \<Rightarrow> executor \<Rightarrow> executor" where
  "after_settle i fq = fq\<lparr>running := without i (running fq)\<rparr>"

text \<open>The tasks whose operation is called during a step, in the order of the calls.\<close>

fun starts :: "step \<Rightarrow> DeferQueue \<Rightarrow> DeferCallback list" where
  "starts (Push t) q = (if queued q then [] else started_by_submit t (fastQueue q))"
| "starts (Unshift t) q = (if queued q then [] else started_by_submit t (fastQueue q))"
| "starts Resume q = started_by_resume (fastQueue q)"
| "starts (Settle i) q =
     (if i < length (running (fastQueue q))
      then newly_started (after_settle i (fastQueue q)) else [])"
| "starts s q = []"

text \<open>The tasks whose completion reaches \<^verbatim>\<open>#notifier\<close> during a step, in that order,
  and during a run of steps.\<close>

fun delivered :: "step \<Rightarrow> DeferQueue \<Rightarrow> DeferCallback list" where
  "delivered (Settle i) q =
     (if i < length (running (fastQueue q))
      then running (fastQueue q) ! i # filter settles_at_call (starts (Settle i) q) else [])"
| "delivered s q = filter settles_at_call (starts s q)"

fun delivered_in :: "step list \<Rightarrow> DeferQueue \<Rightarrow> DeferCallback list" where
  "delivered_in [] q = []"
| "delivered_in (s # ss) q = delivered s q @ delivered_in ss (do_step s q)"

text \<open>The tasks admitted by \<^verbatim>\<open>push\<close> and \<^verbatim>\<open>unshift\<close> in a run, and the pending
  tasks discarded by \<^verbatim>\<open>kill\<close>.\<close>

fun admitted_tasks :: "step list \<Rightarrow> DeferCallback list" where
  "admitted_tasks [] = []"
| "admitted_tasks (Push t # ss) = t # admitted_tasks ss"
| "admitted_tasks (Unshift t # ss) = t # admitted_tasks ss"
| "admitted_tasks (s # ss) = admitted_tasks ss"

fun discarded_tasks :: "step list \<Rightarrow> DeferQueue \<Rightarrow> DeferCallback list" where
  "discarded_tasks [] q = []"
| "discarded_tasks (Kill # ss) q = pending (fastQueue q) @ discarded_tasks ss (do_step Kill q)"
| "discarded_tasks (s # ss) q = discarded_tasks ss (do_step s q)"




text \<open>The calls of operations recorded, each with the task it was made for; and the record
  of calls where each is the call the worker makes for its task.\<close>

fun invocations :: "event list \<Rightarrow> (operation \<times> DeferCallback) list" where
  "invocations [] = []"
| "invocations (Invoked opn t # es) = (opn, t) # invocations es"
| "invocations (e # es) = invocations es"

definition normal_invocations :: "event list \<Rightarrow> bool" where
  "normal_invocations es =
     (invocations es = map (\<lambda>t. (fst (invoke t), t)) (started_tasks es))"

text \<open>The state \<open>v\<close> of the queue once the executor has given a free slot to the task \<open>t\<close>
  in the state \<open>s\<close>, with no other task pending: the operation of the task has been called;
  if the call threw, the completion has been delivered and the slot released, and otherwise
  the task is running.\<close>

definition given_slot :: "DeferCallback \<Rightarrow> DeferQueue \<Rightarrow> DeferQueue \<Rightarrow> bool" where
  "given_slot t s v =
     (pending (fastQueue v) = [] \<and>
      running (fastQueue v) = running (fastQueue s) @ (if settles_at_call t then [] else [t]) \<and>
      trace v =
        trace s @ worker_start t @
        (if settles_at_call t
         then hook_calls (fst (worker t)) (snd (worker t)) s @
              (if running (fastQueue s) = [] then call_drain (fastQueue s) else [])
         else []) \<and>
      notifiers v =
        notifiers (nrun (map completion_of (if settles_at_call t then [t] else [])) s) \<and>
      promises v =
        promises (nrun (map completion_of (if settles_at_call t then [t] else [])) s) \<and>
      drain (fastQueue v) = drain (fastQueue s))"

section \<open>The completion handler\<close>

lemma notifier_trace:
  "trace (notifier error taskResult q) = trace q @ hook_calls error taskResult q"
  by (cases "notifiers q")
     (auto simp: notifier_def hook_calls_def emit_def Let_def split: option.splits)

lemma notifier_notifiers:
  "notifiers (notifier error taskResult q) = tl (notifiers q)"
  by (cases "notifiers q")
     (auto simp: notifier_def emit_def Let_def split: option.splits)

lemma notifier_promises_Nil:
  "notifiers q = [] \<Longrightarrow> promises (notifier error taskResult q) = promises q"
  by (auto simp: notifier_def emit_def Let_def split: option.splits)

lemma notifier_promises_Cons:
  "notifiers q = d # rest \<Longrightarrow>
   promises (notifier error taskResult q) =
     deferred_resolve d (outcome error taskResult) (promises q)"
  by (auto simp: notifier_def emit_def Let_def outcome_def split: option.splits)

lemma notifier_fastQueue: "fastQueue (notifier error taskResult q) = fastQueue q"
  by (cases "notifiers q")
     (auto simp: notifier_def emit_def Let_def split: option.splits)

lemma notifier_hooks:
  "onError (notifier e r q) = onError q"
  "taskCompleted (notifier e r q) = taskCompleted q"
  "taskAdded (notifier e r q) = taskAdded q"
  "drainCallback (notifier e r q) = drainCallback q"
  by (cases "notifiers q"; auto simp: notifier_def emit_def Let_def split: option.splits)+



section \<open>Notifiers are matched by position\<close>

lemma nrun_append: "nrun (es @ fs) q = nrun fs (nrun es q)"
  by (induction es arbitrary: q) auto

lemma completions_append: "completions (es @ fs) = completions es @ completions fs"
  by (induction es rule: completions.induct) auto

lemma createNotifier_fields:
  "fst (createNotifier q) = length (promises q)"
  "promises (snd (createNotifier q)) = promises q @ [Pending]"
  "notifiers (snd (createNotifier q)) = notifiers q @ [length (promises q)]"
  "trace (snd (createNotifier q)) = trace q"
  "fastQueue (snd (createNotifier q)) = fastQueue q"
  "onError (snd (createNotifier q)) = onError q"
  "taskCompleted (snd (createNotifier q)) = taskCompleted q"
  "taskAdded (snd (createNotifier q)) = taskAdded q"
  "drainCallback (snd (createNotifier q)) = drainCallback q"
  by (simp_all add: createNotifier_def Let_def)

lemma createNotifier_pending:
  assumes "notifiers_pending q"
  shows "notifiers_pending (snd (createNotifier q))"
  using assms
  by (auto simp: notifiers_pending_def createNotifier_fields nth_append)

lemma length_deferred_resolve [simp]: "length (deferred_resolve d v ps) = length ps"
  by (simp add: deferred_resolve_def)

lemma notifier_length_promises [simp]:
  "length (promises (notifier error taskResult q)) = length (promises q)"
  by (cases "notifiers q") (simp_all add: notifier_promises_Nil notifier_promises_Cons)

lemma notifier_pending:
  assumes "notifiers_pending q"
  shows "notifiers_pending (notifier error taskResult q)"
proof (cases "notifiers q")
  case Nil
  with assms show ?thesis
    by (simp add: notifiers_pending_def notifier_notifiers notifier_promises_Nil)
next
  case (Cons d rest)
  from assms Cons have d: "d \<notin> set rest" "distinct rest"
    and r: "\<forall>n \<in> set rest. n < length (promises q) \<and> promises q ! n = Pending"
    by (simp_all add: notifiers_pending_def)
  have "promises (notifier error taskResult q) ! n = Pending" if "n \<in> set rest" for n
  proof -
    from that d have "n \<noteq> d" by auto
    with that r show ?thesis
      by (simp add: notifier_promises_Cons [OF Cons] deferred_resolve_def)
  qed
  with d r Cons show ?thesis
    by (simp add: notifiers_pending_def notifier_notifiers)
qed

lemma nstep_pending: "notifiers_pending q \<Longrightarrow> notifiers_pending (nstep e q)"
  by (cases e) (simp_all add: createNotifier_pending notifier_pending)

lemma nrun_pending: "notifiers_pending q \<Longrightarrow> notifiers_pending (nrun es q)"
  by (induction es arbitrary: q) (simp_all add: nstep_pending)

text \<open>A settled promise stays as it is.\<close>

lemma notifier_settled_stays:
  assumes "n < length (promises q)" "promises q ! n \<noteq> Pending"
  shows "promises (notifier error taskResult q) ! n = promises q ! n"
proof (cases "notifiers q")
  case Nil
  then show ?thesis by (simp add: notifier_promises_Nil)
next
  case (Cons d rest)
  with assms show ?thesis
    by (cases "n = d") (simp_all add: notifier_promises_Cons deferred_resolve_def)
qed

lemma nstep_settled_stays:
  assumes "n < length (promises q)" "promises q ! n \<noteq> Pending"
  shows "n < length (promises (nstep e q)) \<and> promises (nstep e q) ! n = promises q ! n"
  using assms by (cases e) (simp_all add: createNotifier_fields nth_append notifier_settled_stays)

lemma nrun_settled_stays:
  assumes "n < length (promises q)" "promises q ! n \<noteq> Pending"
  shows "promises (nrun es q) ! n = promises q ! n"
  using assms
proof (induction es arbitrary: q)
  case Nil
  then show ?case by simp
next
  case (Cons e es)
  from nstep_settled_stays [OF Cons.prems, of e]
  have "n < length (promises (nstep e q))" "promises (nstep e q) ! n = promises q ! n"
    by simp_all
  with Cons.IH [of "nstep e q"] Cons.prems show ?case by simp
qed

text \<open>A waiting notifier moves one place forward with every completion.\<close>

lemma nrun_waiting:
  assumes "notifiers q = ns @ d # later" "length (completions es) \<le> length ns"
  shows "\<exists>later'. notifiers (nrun es q) = drop (length (completions es)) ns @ d # later'"
  using assms
proof (induction es arbitrary: q ns later)
  case Nil
  then show ?case by simp
next
  case (Cons e es)
  show ?case
  proof (cases e)
    case NCreate
    with Cons.prems have "notifiers (nstep e q) = ns @ d # (later @ [length (promises q)])"
      by (simp add: createNotifier_fields)
    from Cons.IH [OF this] Cons.prems NCreate show ?thesis by simp
  next
    case (NComplete error taskResult)
    with Cons.prems obtain n ns' where ns: "ns = n # ns'"
      by (cases ns) auto
    with Cons.prems NComplete have "notifiers (nstep e q) = ns' @ d # later"
      by (simp add: notifier_notifiers)
    from Cons.IH [OF this] Cons.prems NComplete ns show ?thesis by simp
  qed
qed

text \<open>
  C2, as amended. Matching is by position in the waiting list. A notifier created while
  \<open>k\<close> earlier notifiers are still waiting stays pending, and on the list, as long as at
  most \<open>k\<close> completions have followed its creation; the completion number \<open>k + 1\<close> after
  its creation resolves it with the outcome of that completion, whichever task it is, and
  removes it from the list; whatever follows leaves that result in place, so a notifier is
  resolved at most once, and with no completion after its creation it stays pending.
\<close>

theorem notifier_positional:
  assumes "notifiers_pending q"
  shows "(length (completions es) \<le> length (notifiers q) \<longrightarrow>
            promises (nrun es (snd (createNotifier q))) ! fst (createNotifier q) = Pending \<and>
            fst (createNotifier q) \<in> set (notifiers (nrun es (snd (createNotifier q))))) \<and>
         (\<forall>pre error taskResult post.
            es = pre @ NComplete error taskResult # post \<and>
            length (completions pre) = length (notifiers q) \<longrightarrow>
            promises (nrun es (snd (createNotifier q))) ! fst (createNotifier q) =
              Resolved (if truthy error then StatusRejected error
                        else StatusFulfilled taskResult) \<and>
            fst (createNotifier q) \<notin> set (notifiers (nrun es (snd (createNotifier q)))))"
proof -
  let ?d = "fst (createNotifier q)" and ?q1 = "snd (createNotifier q)"
  have inv1: "notifiers_pending ?q1"
    using assms by (rule createNotifier_pending)
  have n1: "notifiers ?q1 = notifiers q @ ?d # []"
    by (simp add: createNotifier_fields)
  have waiting: "promises (nrun fs ?q1) ! ?d = Pending \<and> ?d \<in> set (notifiers (nrun fs ?q1))"
    if "length (completions fs) \<le> length (notifiers q)" for fs
  proof -
    from nrun_waiting [OF n1 that] obtain later'
      where "notifiers (nrun fs ?q1) = drop (length (completions fs)) (notifiers q) @ ?d # later'"
      by blast
    then have "?d \<in> set (notifiers (nrun fs ?q1))" by simp
    moreover have "notifiers_pending (nrun fs ?q1)"
      using inv1 by (rule nrun_pending)
    ultimately show ?thesis by (simp add: notifiers_pending_def)
  qed
  have resolved: "promises (nrun es ?q1) ! ?d = Resolved (outcome error taskResult) \<and>
                  ?d \<notin> set (notifiers (nrun es ?q1))"
    if es: "es = pre @ NComplete error taskResult # post"
      and k: "length (completions pre) = length (notifiers q)"
    for pre error taskResult post
  proof -
    let ?qa = "nrun pre ?q1"
    let ?qb = "notifier error taskResult ?qa"
    from k have "length (completions pre) \<le> length (notifiers q)" by simp
    from nrun_waiting [OF n1 this] k obtain later' where hd: "notifiers ?qa = ?d # later'"
      by auto
    have inva: "notifiers_pending ?qa"
      using inv1 by (rule nrun_pending)
    with hd have d: "?d < length (promises ?qa)" "promises ?qa ! ?d = Pending"
      by (simp_all add: notifiers_pending_def)
    then have b: "promises ?qb ! ?d = Resolved (outcome error taskResult)"
      by (simp add: notifier_promises_Cons [OF hd] deferred_resolve_def)
    have lenb: "?d < length (promises ?qb)"
      using d by simp
    have "promises (nrun post ?qb) ! ?d = promises ?qb ! ?d"
      using lenb b by (intro nrun_settled_stays) simp_all
    with b es have 1: "promises (nrun es ?q1) ! ?d = Resolved (outcome error taskResult)"
      by (simp add: nrun_append)
    have "notifiers_pending (nrun es ?q1)"
      using inv1 by (rule nrun_pending)
    with 1 have "?d \<notin> set (notifiers (nrun es ?q1))"
      by (auto simp: notifiers_pending_def)
    with 1 show ?thesis by simp
  qed
  show ?thesis
    using waiting [of es] resolved by (auto simp: outcome_def)
qed

theorem notifier_positional_witness:
  "notifiers_pending (snd (createNotifier (new_DeferQueue None))) \<and>
   promises (nrun [NCreate]
       (snd (createNotifier (snd (createNotifier (new_DeferQueue None)))))) ! 1 = Pending \<and>
   promises (nrun [NComplete JNull \<lparr>name = ''A'', response = Some (JNum 1)\<rparr>,
                   NComplete (JError ''boom'') \<lparr>name = ''B'', response = None\<rparr>]
       (snd (createNotifier (snd (createNotifier (new_DeferQueue None)))))) ! 1 =
     Resolved (StatusRejected (JError ''boom''))"
proof -
  let ?q = "snd (createNotifier (new_DeferQueue None))"
  let ?es = "[NComplete JNull \<lparr>name = ''A'', response = Some (JNum 1)\<rparr>,
              NComplete (JError ''boom'') \<lparr>name = ''B'', response = None\<rparr>]"
  have inv: "notifiers_pending ?q"
    by (simp add: notifiers_pending_def createNotifier_def new_DeferQueue_def)
  have d: "fst (createNotifier ?q) = 1" "length (notifiers ?q) = 1"
    by (simp_all add: createNotifier_def new_DeferQueue_def)
  have "length (completions [NCreate]) \<le> length (notifiers ?q)"
    by (simp add: d)
  with notifier_positional [OF inv, of "[NCreate]"]
  have one: "promises (nrun [NCreate] (snd (createNotifier ?q))) ! 1 = Pending"
    by (simp add: d)
  have "?es = [NComplete JNull \<lparr>name = ''A'', response = Some (JNum 1)\<rparr>] @
          NComplete (JError ''boom'') \<lparr>name = ''B'', response = None\<rparr> # [] \<and>
        length (completions [NComplete JNull \<lparr>name = ''A'', response = Some (JNum 1)\<rparr>]) =
          length (notifiers ?q)"
    by (simp add: d)
  with notifier_positional [OF inv, of ?es]
  have two: "promises (nrun ?es (snd (createNotifier ?q))) ! fst (createNotifier ?q) =
               Resolved (if truthy (JError ''boom'') then StatusRejected (JError ''boom'')
                         else StatusFulfilled \<lparr>name = ''B'', response = None\<rparr>)"
    by blast
  show ?thesis
    using inv one two by (simp add: d)
qed

text \<open>
  C2 as stated fails where completions come before or between the creations. After a
  completion (task X), a creation, a completion (A), a second creation and two more
  completions (B, then C), the second notifier created is resolved by B, the first
  completion after its creation. The second completion after its creation is C, and the
  second completion of all is A.
\<close>

theorem nth_completion_counterexample:
  "promises (nrun [NComplete JNull \<lparr>name = ''X'', response = Some (JNum 0)\<rparr>,
                   NCreate, NComplete JNull \<lparr>name = ''A'', response = Some (JNum 1)\<rparr>,
                   NCreate, NComplete JNull \<lparr>name = ''B'', response = Some (JNum 2)\<rparr>,
                   NComplete JNull \<lparr>name = ''C'', response = Some (JNum 3)\<rparr>]
              (new_DeferQueue None)) ! 1 =
     Resolved (StatusFulfilled \<lparr>name = ''B'', response = Some (JNum 2)\<rparr>) \<and>
   claimed_completion 2
     [NComplete JNull \<lparr>name = ''X'', response = Some (JNum 0)\<rparr>,
      NCreate, NComplete JNull \<lparr>name = ''A'', response = Some (JNum 1)\<rparr>,
      NCreate, NComplete JNull \<lparr>name = ''B'', response = Some (JNum 2)\<rparr>,
      NComplete JNull \<lparr>name = ''C'', response = Some (JNum 3)\<rparr>] =
     Some (JNull, \<lparr>name = ''C'', response = Some (JNum 3)\<rparr>) \<and>
   outcome JNull \<lparr>name = ''C'', response = Some (JNum 3)\<rparr> \<noteq>
     StatusFulfilled \<lparr>name = ''B'', response = Some (JNum 2)\<rparr> \<and>
   completions
     [NComplete JNull \<lparr>name = ''X'', response = Some (JNum 0)\<rparr>,
      NCreate, NComplete JNull \<lparr>name = ''A'', response = Some (JNum 1)\<rparr>,
      NCreate, NComplete JNull \<lparr>name = ''B'', response = Some (JNum 2)\<rparr>,
      NComplete JNull \<lparr>name = ''C'', response = Some (JNum 3)\<rparr>] ! 1 =
     (JNull, \<lparr>name = ''A'', response = Some (JNum 1)\<rparr>) \<and>
   outcome JNull \<lparr>name = ''A'', response = Some (JNum 1)\<rparr> \<noteq>
     StatusFulfilled \<lparr>name = ''B'', response = Some (JNum 2)\<rparr>"
  by (simp add: claimed_completion_def outcome_def notifier_def createNotifier_def
      new_DeferQueue_def deferred_resolve_def Let_def)

section \<open>The executor under the queue\<close>

lemma emit_fields [simp]:
  "fastQueue (emit es q) = fastQueue q"
  "trace (emit es q) = trace q @ es"
  "notifiers (emit es q) = notifiers q"
  "promises (emit es q) = promises q"
  "onError (emit es q) = onError q"
  "taskCompleted (emit es q) = taskCompleted q"
  "taskAdded (emit es q) = taskAdded q"
  "drainCallback (emit es q) = drainCallback q"
  by (simp_all add: emit_def)

lemma hook_calls_same:
  "onError q = onError q' \<Longrightarrow> taskCompleted q = taskCompleted q' \<Longrightarrow>
   hook_calls e r q = hook_calls e r q'"
  by (simp add: hook_calls_def)

lemma started_tasks_append [simp]:
  "started_tasks (es @ fs) = started_tasks es @ started_tasks fs"
  by (induction es rule: started_tasks.induct) simp_all

lemma started_worker_start [simp]: "started_tasks (worker_start t) = [t]"
  by (simp add: worker_start_def)

lemma started_call_drain [simp]: "started_tasks (call_drain fq) = []"
  by (simp add: call_drain_def split: option.splits)

lemma started_hook_calls [simp]: "started_tasks (hook_calls e r q) = []"
  by (simp add: hook_calls_def split: option.splits)

lemma started_added_calls [simp]: "started_tasks (added_calls t q) = []"
  by (simp add: added_calls_def split: option.splits)

lemma drained_calls_append [simp]:
  "drained_calls (es @ fs) = drained_calls es @ drained_calls fs"
  by (induction es rule: drained_calls.induct) simp_all

lemma drained_hook_calls [simp]: "drained_calls (hook_calls e r q) = []"
  by (simp add: hook_calls_def split: option.splits)

lemma drained_added_calls [simp]: "drained_calls (added_calls t q) = []"
  by (simp add: added_calls_def split: option.splits)

lemma drained_worker_start [simp]: "drained_calls (worker_start t) = []"
  by (simp add: worker_start_def)

lemma drained_call_drain: "drained_calls (call_drain fq) = (case drain fq of Some h \<Rightarrow> [h] | None \<Rightarrow> [])"
  by (simp add: call_drain_def split: option.splits)

text \<open>What giving slots to pending tasks leaves alone.\<close>

lemma fq_next_fields:
  "paused (fastQueue (fq_next ts q)) = paused (fastQueue q)"
  "concurrency (fastQueue (fq_next ts q)) = concurrency (fastQueue q)"
  "drain (fastQueue (fq_next ts q)) = drain (fastQueue q)"
  "drainCallback (fq_next ts q) = drainCallback q"
  "onError (fq_next ts q) = onError q"
  "taskCompleted (fq_next ts q) = taskCompleted q"
  "taskAdded (fq_next ts q) = taskAdded q"
  by (induction ts arbitrary: q; simp add: Let_def notifier_fastQueue notifier_hooks)+

lemma taken_le: "taken free ts \<le> length ts"
  by (induction ts arbitrary: free) simp_all

lemma taken_min: "min free (length ts) \<le> taken free ts"
proof (induction ts arbitrary: free)
  case Nil
  then show ?case by simp
next
  case (Cons t ts)
  have a: "min free (length ts) \<le> taken free ts"
    and b: "min (free - 1) (length ts) \<le> taken (free - 1) ts"
    by (rule Cons.IH)+
  show ?case
  proof (cases "free = 0")
    case True
    then show ?thesis by simp
  next
    case False
    show ?thesis
    proof (cases "settles_at_call t")
      case True
      then have e: "taken free (t # ts) = Suc (taken free ts)" using False by simp
      show ?thesis unfolding e using a by (auto simp: min_def split: if_splits)
    next
      case no: False
      then have e: "taken free (t # ts) = Suc (taken (free - 1) ts)" using False by simp
      show ?thesis unfolding e using b False by (auto simp: min_def split: if_splits)
    qed
  qed
qed

lemma fq_next_pending:
  "pending (fastQueue (fq_next ts q)) = drop (taken (free_slots (fastQueue q)) ts) ts"
proof (induction ts arbitrary: q)
  case Nil
  then show ?case by (simp add: Let_def)
next
  case (Cons t ts)
  show ?case
    by (simp add: Let_def Cons.IH free_slots_def notifier_fastQueue)
qed

lemma fq_next_running:
  "running (fastQueue (fq_next ts q)) =
     running (fastQueue q) @
     filter (\<lambda>t. \<not> settles_at_call t) (take (taken (free_slots (fastQueue q)) ts) ts)"
proof (induction ts arbitrary: q)
  case Nil
  then show ?case by (simp add: Let_def)
next
  case (Cons t ts)
  show ?case
    by (simp add: Let_def Cons.IH free_slots_def notifier_fastQueue)
qed

lemma fq_next_started:
  "started_tasks (trace (fq_next ts q)) =
     started_tasks (trace q) @ take (taken (free_slots (fastQueue q)) ts) ts"
proof (induction ts arbitrary: q)
  case Nil
  then show ?case by (simp add: Let_def)
next
  case (Cons t ts)
  show ?case
    by (simp add: Let_def Cons.IH free_slots_def notifier_fastQueue notifier_trace)
qed

section \<open>Completions delivered in a row\<close>

lemma nstep_same:
  assumes "notifiers q = notifiers q'" "promises q = promises q'"
  shows "notifiers (nstep e q) = notifiers (nstep e q') \<and>
         promises (nstep e q) = promises (nstep e q')"
proof (cases e)
  case NCreate
  with assms show ?thesis by (simp add: createNotifier_fields)
next
  case (NComplete error taskResult)
  with assms show ?thesis
    by (cases "notifiers q'")
       (simp_all add: notifier_notifiers notifier_promises_Nil notifier_promises_Cons)
qed

lemma nrun_same:
  assumes "notifiers q = notifiers q'" "promises q = promises q'"
  shows "notifiers (nrun es q) = notifiers (nrun es q') \<and>
         promises (nrun es q) = promises (nrun es q')"
  using assms
proof (induction es arbitrary: q q')
  case Nil
  then show ?case by simp
next
  case (Cons e es)
  from nstep_same [OF Cons.prems, of e] Cons.IH [of "nstep e q" "nstep e q'"]
  show ?case by simp
qed

lemma notifiers_pending_same:
  "notifiers q = notifiers q' \<Longrightarrow> promises q = promises q' \<Longrightarrow>
   notifiers_pending q = notifiers_pending q'"
  by (simp add: notifiers_pending_def)

lemma notifier_same:
  assumes "notifiers q = notifiers q'" "promises q = promises q'"
  shows "notifiers (notifier e r q) = notifiers (notifier e r q')"
    and "promises (notifier e r q) = promises (notifier e r q')"
  using nstep_same [OF assms, of "NComplete e r"] by simp_all

lemma fq_next_handler:
  "notifiers (fq_next ts q) =
     notifiers (nrun (map completion_of
        (filter settles_at_call (take (taken (free_slots (fastQueue q)) ts) ts))) q) \<and>
   promises (fq_next ts q) =
     promises (nrun (map completion_of
        (filter settles_at_call (take (taken (free_slots (fastQueue q)) ts) ts))) q)"
proof (induction ts arbitrary: q)
  case Nil
  then show ?case by (simp add: Let_def)
next
  case (Cons t ts)
  let ?free = "free_slots (fastQueue q)"
  show ?case
  proof (cases "length (running (fastQueue q)) < concurrency (fastQueue q)")
    case False
    then show ?thesis by (simp add: free_slots_def)
  next
    case slot: True
    let ?q1 = "emit (worker_start t) (q\<lparr>fastQueue := (fastQueue q)\<lparr>pending := ts\<rparr>\<rparr>)"
    show ?thesis
    proof (cases "settles_at_call t")
      case True
      let ?q2 = "notifier (fst (worker t)) (snd (worker t)) ?q1"
      let ?es = "map completion_of (filter settles_at_call (take (taken ?free ts) ts))"
      have f: "free_slots (fastQueue ?q2) = ?free"
        by (simp add: free_slots_def notifier_fastQueue)
      have e: "fq_next (t # ts) q = fq_next ts ?q2"
        using slot True by (simp add: Let_def)
      have tk: "taken ?free (t # ts) = Suc (taken ?free ts)"
        using slot True by (simp add: free_slots_def)
      have s: "notifiers ?q2 = notifiers (nstep (completion_of t) q)"
        "promises ?q2 = promises (nstep (completion_of t) q)"
        using notifier_same [of ?q1 q "fst (worker t)" "snd (worker t)"]
        by (simp_all add: completion_of_def)
      have ih: "notifiers (fq_next ts ?q2) = notifiers (nrun ?es ?q2) \<and>
                promises (fq_next ts ?q2) = promises (nrun ?es ?q2)"
        using Cons.IH [of ?q2] unfolding f .
      from ih nrun_same [OF s, of ?es] show ?thesis
        unfolding e tk using True by simp
    next
      case False
      let ?q2 = "?q1\<lparr>fastQueue := (fastQueue ?q1)\<lparr>running := running (fastQueue ?q1) @ [t]\<rparr>\<rparr>"
      let ?es = "map completion_of (filter settles_at_call (take (taken (?free - 1) ts) ts))"
      have f: "free_slots (fastQueue ?q2) = ?free - 1"
        by (simp add: free_slots_def)
      have e: "fq_next (t # ts) q = fq_next ts ?q2"
        using slot False by (simp add: Let_def)
      have tk: "taken ?free (t # ts) = Suc (taken (?free - 1) ts)"
        using slot False by (simp add: free_slots_def)
      have s: "notifiers ?q2 = notifiers q" "promises ?q2 = promises q"
        by simp_all
      have ih: "notifiers (fq_next ts ?q2) = notifiers (nrun ?es ?q2) \<and>
                promises (fq_next ts ?q2) = promises (nrun ?es ?q2)"
        using Cons.IH [of ?q2] unfolding f .
      from ih nrun_same [OF s, of ?es] show ?thesis
        unfolding e tk using False by simp
    qed
  qed
qed

lemma fq_next_drained:
  "drained_calls (trace (fq_next ts q)) =
     drained_calls (trace q) @
     (if taken (free_slots (fastQueue q)) ts = length ts \<and> running (fastQueue (fq_next ts q)) = []
      then (case drain (fastQueue q) of Some h \<Rightarrow> [h] | None \<Rightarrow> [])
      else [])"
proof (induction ts arbitrary: q)
  case Nil
  then show ?case by (simp add: Let_def drained_call_drain)
next
  case (Cons t ts)
  show ?case
    by (simp add: Let_def Cons.IH free_slots_def notifier_fastQueue notifier_trace)
qed

lemma new_DeferQueue_fields:
  "pending (fastQueue (new_DeferQueue c)) = []"
  "running (fastQueue (new_DeferQueue c)) = []"
  "paused (fastQueue (new_DeferQueue c)) = False"
  "drain (fastQueue (new_DeferQueue c)) = None"
  "drainCallback (new_DeferQueue c) = None"
  "notifiers (new_DeferQueue c) = []"
  "promises (new_DeferQueue c) = []"
  "trace (new_DeferQueue c) = []"
  by (simp_all add: new_DeferQueue_def)

lemma set_drained_fields:
  "pending (fastQueue (set_drained h q)) = pending (fastQueue q)"
  "running (fastQueue (set_drained h q)) = running (fastQueue q)"
  "paused (fastQueue (set_drained h q)) = paused (fastQueue q)"
  "concurrency (fastQueue (set_drained h q)) = concurrency (fastQueue q)"
  "drain (fastQueue (set_drained h q)) = Some h"
  "drainCallback (set_drained h q) = Some h"
  "trace (set_drained h q) = trace q"
  "notifiers (set_drained h q) = notifiers q"
  "promises (set_drained h q) = promises q"
  by (simp_all add: set_drained_def)

lemma pause_eq: "pause q = q\<lparr>fastQueue := (fastQueue q)\<lparr>paused := True\<rparr>\<rparr>"
  by (simp add: pause_def fq_pause_def)

lemma kill_eq:
  "kill q =
     q\<lparr>fastQueue := (fastQueue q)\<lparr>pending := [], drain := drainCallback q\<rparr>,
       trace := trace q @ call_drain (fastQueue q)\<rparr>"
  by (cases "drainCallback q") (simp_all add: kill_def fq_killAndDrain_def emit_def)

lemma length_newly_started_le: "length (newly_started fq) \<le> length (pending fq)"
  by (simp add: newly_started_def)

lemma newly_started_prefix:
  "take (length (newly_started fq)) (pending fq) = newly_started fq"
  by (simp add: newly_started_def min_absorb2 taken_le)

lemma drop_newly_started:
  "\<not> (paused fq \<and> pending fq \<noteq> []) \<Longrightarrow>
   drop (length (newly_started fq)) (pending fq) = drop (taken (free_slots fq) (pending fq)) (pending fq)"
  by (simp add: newly_started_def min_absorb2 taken_le)

text \<open>Releasing a slot.\<close>

lemma fq_release_fields:
  "pending (fastQueue (fq_release q)) =
     drop (length (newly_started (fastQueue q))) (pending (fastQueue q))"
  "running (fastQueue (fq_release q)) =
     running (fastQueue q) @ filter (\<lambda>t. \<not> settles_at_call t) (newly_started (fastQueue q))"
  "started_tasks (trace (fq_release q)) = started_tasks (trace q) @ newly_started (fastQueue q)"
  "paused (fastQueue (fq_release q)) = paused (fastQueue q)"
  "concurrency (fastQueue (fq_release q)) = concurrency (fastQueue q)"
  "drain (fastQueue (fq_release q)) = drain (fastQueue q)"
  "drainCallback (fq_release q) = drainCallback q"
  "onError (fq_release q) = onError q"
  "taskCompleted (fq_release q) = taskCompleted q"
  "taskAdded (fq_release q) = taskAdded q"
  by (simp_all add: fq_release_def newly_started_def fq_next_pending fq_next_running
      fq_next_started fq_next_fields min_absorb2 taken_le)

lemma fq_release_handler:
  "notifiers (fq_release q) =
     notifiers (nrun (map completion_of (filter settles_at_call (newly_started (fastQueue q)))) q)"
  "promises (fq_release q) =
     promises (nrun (map completion_of (filter settles_at_call (newly_started (fastQueue q)))) q)"
  using fq_next_handler [of "pending (fastQueue q)" q]
  by (simp_all add: fq_release_def newly_started_def)

text \<open>Starting a submitted task at once.\<close>

lemma fq_start_fields:
  "pending (fastQueue (fq_start t q)) =
     drop (length (started_by_submit t (fastQueue q)) - 1) (pending (fastQueue q))"
  "running (fastQueue (fq_start t q)) =
     running (fastQueue q) @
     filter (\<lambda>t. \<not> settles_at_call t) (started_by_submit t (fastQueue q))"
  "started_tasks (trace (fq_start t q)) =
     started_tasks (trace q) @ started_by_submit t (fastQueue q)"
  "paused (fastQueue (fq_start t q)) = paused (fastQueue q)"
  "concurrency (fastQueue (fq_start t q)) = concurrency (fastQueue q)"
  "drain (fastQueue (fq_start t q)) = drain (fastQueue q)"
  "drainCallback (fq_start t q) = drainCallback q"
  "onError (fq_start t q) = onError q"
  "taskCompleted (fq_start t q) = taskCompleted q"
  "taskAdded (fq_start t q) = taskAdded q"
  by (simp_all add: fq_start_def Let_def started_by_submit_def fq_release_fields
      notifier_fastQueue notifier_trace notifier_hooks)

lemma fq_start_handler:
  "notifiers (fq_start t q) =
     notifiers (nrun (map completion_of
        (filter settles_at_call (started_by_submit t (fastQueue q)))) q)"
  "promises (fq_start t q) =
     promises (nrun (map completion_of
        (filter settles_at_call (started_by_submit t (fastQueue q)))) q)"
proof -
  let ?q1 = "emit (worker_start t) q"
  let ?q2 = "notifier (fst (worker t)) (snd (worker t)) ?q1"
  let ?es = "map completion_of (filter settles_at_call (newly_started (fastQueue q)))"
  have s: "notifiers ?q2 = notifiers (nstep (completion_of t) q)"
    "promises ?q2 = promises (nstep (completion_of t) q)"
    using notifier_same [of ?q1 q "fst (worker t)" "snd (worker t)"]
    by (simp_all add: completion_of_def)
  have r: "notifiers (fq_release ?q2) = notifiers (nrun ?es ?q2)"
    "promises (fq_release ?q2) = promises (nrun ?es ?q2)"
    using fq_release_handler [of ?q2] by (simp_all add: notifier_fastQueue)
  show "notifiers (fq_start t q) =
     notifiers (nrun (map completion_of
        (filter settles_at_call (started_by_submit t (fastQueue q)))) q)"
    "promises (fq_start t q) =
     promises (nrun (map completion_of
        (filter settles_at_call (started_by_submit t (fastQueue q)))) q)"
    using r nrun_same [OF s, of ?es]
    by (simp_all add: fq_start_def Let_def started_by_submit_def)
qed

text \<open>Submission.\<close>

lemma push_queued:
  "queued q \<Longrightarrow>
   push task q =
     q\<lparr>fastQueue := (fastQueue q)\<lparr>pending := pending (fastQueue q) @ [task]\<rparr>,
       trace := trace q @ added_calls task q\<rparr>"
  by (cases "taskAdded q") (auto simp: push_def fq_push_def queued_def emit_def added_calls_def)

lemma unshift_queued:
  "queued q \<Longrightarrow>
   unshift task q =
     q\<lparr>fastQueue := (fastQueue q)\<lparr>pending := task # pending (fastQueue q)\<rparr>,
       trace := trace q @ added_calls task q\<rparr>"
  by (cases "taskAdded q") (auto simp: unshift_def fq_unshift_def queued_def emit_def added_calls_def)

lemma push_started:
  "\<not> queued q \<Longrightarrow> push task q = fq_start task (emit (added_calls task q) q)"
  by (cases "taskAdded q") (auto simp: push_def fq_push_def queued_def emit_def added_calls_def)

lemma unshift_started:
  "\<not> queued q \<Longrightarrow> unshift task q = fq_start task (emit (added_calls task q) q)"
  by (cases "taskAdded q") (auto simp: unshift_def fq_unshift_def queued_def emit_def added_calls_def)

text \<open>Resuming.\<close>

lemma resume_next:
  "resume q = fq_next (pending (fastQueue q)) (q\<lparr>fastQueue := (fastQueue q)\<lparr>paused := False\<rparr>\<rparr>) \<or>
   (pending (fastQueue q) = [] \<and> resume q = q\<lparr>fastQueue := (fastQueue q)\<lparr>paused := False\<rparr>\<rparr>)"
  by (cases "pending (fastQueue q)") (simp_all add: resume_def fq_resume_def Let_def)

lemma resume_fields:
  "pending (fastQueue (resume q)) =
     drop (length (started_by_resume (fastQueue q))) (pending (fastQueue q))"
  "running (fastQueue (resume q)) =
     running (fastQueue q) @
     filter (\<lambda>t. \<not> settles_at_call t) (started_by_resume (fastQueue q))"
  "started_tasks (trace (resume q)) = started_tasks (trace q) @ started_by_resume (fastQueue q)"
  "paused (fastQueue (resume q)) = False"
  "concurrency (fastQueue (resume q)) = concurrency (fastQueue q)"
  "drain (fastQueue (resume q)) = drain (fastQueue q)"
  "drainCallback (resume q) = drainCallback q"
  "onError (resume q) = onError q"
  "taskCompleted (resume q) = taskCompleted q"
  "taskAdded (resume q) = taskAdded q"
  by (cases "pending (fastQueue q)";
      simp add: resume_def fq_resume_def Let_def started_by_resume_def free_slots_def
        fq_next_pending fq_next_running fq_next_started fq_next_fields min_absorb2 taken_le
        del: fq_next.simps)+

lemma resume_handler:
  "notifiers (resume q) =
     notifiers (nrun (map completion_of (filter settles_at_call (started_by_resume (fastQueue q)))) q)"
  "promises (resume q) =
     promises (nrun (map completion_of (filter settles_at_call (started_by_resume (fastQueue q)))) q)"
proof -
  let ?q1 = "q\<lparr>fastQueue := (fastQueue q)\<lparr>paused := False\<rparr>\<rparr>"
  let ?es = "map completion_of (filter settles_at_call (started_by_resume (fastQueue q)))"
  have s: "notifiers ?q1 = notifiers q" "promises ?q1 = promises q" by simp_all
  have f: "free_slots (fastQueue ?q1) = free_slots (fastQueue q)"
    by (simp add: free_slots_def)
  have "notifiers (resume q) = notifiers (nrun ?es ?q1) \<and>
        promises (resume q) = promises (nrun ?es ?q1)"
  proof (cases "pending (fastQueue q)")
    case Nil
    then show ?thesis
      by (simp add: resume_def fq_resume_def Let_def started_by_resume_def)
  next
    case (Cons t ts)
    then have "resume q = fq_next (pending (fastQueue q)) ?q1"
      by (simp add: resume_def fq_resume_def Let_def del: fq_next.simps)
    with fq_next_handler [of "pending (fastQueue q)" ?q1] show ?thesis
      unfolding f by (simp add: started_by_resume_def)
  qed
  with nrun_same [OF s, of ?es]
  show "notifiers (resume q) = notifiers (nrun ?es q)"
    "promises (resume q) = promises (nrun ?es q)"
    by simp_all
qed

text \<open>The completion of a running task.\<close>

lemma length_without: "i < length xs \<Longrightarrow> Suc (length (without i xs)) = length xs"
  by (auto simp: without_def)

lemma without_0 [simp]: "without 0 (x # xs) = xs"
  by (simp add: without_def)

lemma after_settle_fields [simp]:
  "pending (after_settle i fq) = pending fq"
  "running (after_settle i fq) = without i (running fq)"
  "paused (after_settle i fq) = paused fq"
  "concurrency (after_settle i fq) = concurrency fq"
  "drain (after_settle i fq) = drain fq"
  by (simp_all add: after_settle_def)

lemma settle_task_eq:
  assumes "i < length (running (fastQueue q))"
  shows "settle_task i q =
     fq_release
       ((notifier (fst (worker (running (fastQueue q) ! i)))
                  (snd (worker (running (fastQueue q) ! i))) q)
          \<lparr>fastQueue := after_settle i (fastQueue q)\<rparr>)"
  using assms
  by (simp add: settle_task_def split_beta Let_def notifier_fastQueue after_settle_def without_def)

lemma settle_task_fields:
  assumes "i < length (running (fastQueue q))"
  shows "pending (fastQueue (settle_task i q)) =
           drop (length (newly_started (after_settle i (fastQueue q)))) (pending (fastQueue q))"
    and "running (fastQueue (settle_task i q)) =
           without i (running (fastQueue q)) @
           filter (\<lambda>t. \<not> settles_at_call t) (newly_started (after_settle i (fastQueue q)))"
    and "started_tasks (trace (settle_task i q)) =
           started_tasks (trace q) @ newly_started (after_settle i (fastQueue q))"
    and "paused (fastQueue (settle_task i q)) = paused (fastQueue q)"
    and "concurrency (fastQueue (settle_task i q)) = concurrency (fastQueue q)"
    and "drain (fastQueue (settle_task i q)) = drain (fastQueue q)"
    and "drainCallback (settle_task i q) = drainCallback q"
    and "onError (settle_task i q) = onError q"
    and "taskCompleted (settle_task i q) = taskCompleted q"
    and "taskAdded (settle_task i q) = taskAdded q"
  by (simp_all add: settle_task_eq [OF assms] fq_release_fields notifier_trace notifier_hooks)

lemma settle_task_handler:
  assumes "i < length (running (fastQueue q))"
  shows "notifiers (settle_task i q) =
           notifiers (nrun (map completion_of
              (running (fastQueue q) ! i #
               filter settles_at_call (newly_started (after_settle i (fastQueue q))))) q)"
    and "promises (settle_task i q) =
           promises (nrun (map completion_of
              (running (fastQueue q) ! i #
               filter settles_at_call (newly_started (after_settle i (fastQueue q))))) q)"
proof -
  let ?r = "running (fastQueue q) ! i"
  let ?q2 = "(notifier (fst (worker ?r)) (snd (worker ?r)) q)\<lparr>fastQueue := after_settle i (fastQueue q)\<rparr>"
  let ?es = "map completion_of (filter settles_at_call (newly_started (after_settle i (fastQueue q))))"
  have s: "notifiers ?q2 = notifiers (nstep (completion_of ?r) q)"
    "promises ?q2 = promises (nstep (completion_of ?r) q)"
    by (simp_all add: completion_of_def)
  from fq_release_handler [of ?q2] nrun_same [OF s, of ?es]
  show "notifiers (settle_task i q) = notifiers (nrun (map completion_of
              (?r # filter settles_at_call (newly_started (after_settle i (fastQueue q))))) q)"
    and "promises (settle_task i q) = promises (nrun (map completion_of
              (?r # filter settles_at_call (newly_started (after_settle i (fastQueue q))))) q)"
    by (simp_all add: settle_task_eq [OF assms])
qed

section \<open>Task failures\<close>

text \<open>
  A failure with a truthy reason is delivered as a failure, whether the operation throws
  at the call or rejects later: the completion handler gets the reason and the name of the
  task, calls \<^verbatim>\<open>onError\<close> and resolves the waiting notifier with the rejected status.
\<close>

lemma truthy_failure_delivered:
  assumes "snd (invoke task) = Throws e \<or> snd (invoke task) = ThrowsAtCall e" "truthy e"
  shows "worker task = (e, \<lparr>name = cb_name task, response = None\<rparr>) \<and>
         hook_calls e \<lparr>name = cb_name task, response = None\<rparr> q =
           (case onError q of
              Some h \<Rightarrow> [OnErrorCalled h e \<lparr>name = cb_name task, response = None\<rparr>]
            | None \<Rightarrow> []) \<and>
         outcome e \<lparr>name = cb_name task, response = None\<rparr> = StatusRejected e"
  using assms by (auto simp: worker_def hook_calls_def outcome_def)

text \<open>
  C3 does not hold for a task that throws, or rejects with, a falsy value: the handler
  tests the error for truthiness, so the failure of
  \<^verbatim>\<open>async function sendEmail() { throw undefined }\<close> is reported as a success.
  \<^verbatim>\<open>onError\<close> is not called, \<^verbatim>\<open>taskCompleted\<close> is called with the name alone, and
  the notifier resolves with the fulfilled status. The same happens, inside \<^verbatim>\<open>push\<close>,
  for the plain \<^verbatim>\<open>function sendEmail() { throw undefined }\<close>.
\<close>

theorem falsy_rejection_reported_as_success:
  "trace (run [SetOnError (Some 1), SetTaskCompleted (Some 2), CreateNotifier,
               Push (Callable ''sendEmail'' (Throws JUndefined)), Settle 0]
            (new_DeferQueue None)) =
     [Invoked CallItself (Callable ''sendEmail'' (Throws JUndefined)),
      TaskCompletedCalled 2 \<lparr>name = ''sendEmail'', response = None\<rparr>] \<and>
   promises (run [SetOnError (Some 1), SetTaskCompleted (Some 2), CreateNotifier,
                  Push (Callable ''sendEmail'' (Throws JUndefined)), Settle 0]
               (new_DeferQueue None)) =
     [Resolved (StatusFulfilled \<lparr>name = ''sendEmail'', response = None\<rparr>)] \<and>
   trace (run [SetOnError (Some 1), SetTaskCompleted (Some 2), CreateNotifier,
               Push (Callable ''sendEmail'' (ThrowsAtCall JUndefined))]
            (new_DeferQueue None)) =
     [Invoked CallItself (Callable ''sendEmail'' (ThrowsAtCall JUndefined)),
      TaskCompletedCalled 2 \<lparr>name = ''sendEmail'', response = None\<rparr>] \<and>
   promises (run [SetOnError (Some 1), SetTaskCompleted (Some 2), CreateNotifier,
                  Push (Callable ''sendEmail'' (ThrowsAtCall JUndefined))]
               (new_DeferQueue None)) =
     [Resolved (StatusFulfilled \<lparr>name = ''sendEmail'', response = None\<rparr>)]"
  by (simp add: new_DeferQueue_def createNotifier_def push_def emit_def
      fq_push_def fq_start_def worker_start_def settle_task_def worker_def notifier_def
      deferred_resolve_def fq_release_def call_drain_def settles_at_call_def Let_def)

section \<open>A scenario with one slot\<close>

text \<open>
  C5. With a concurrency of 1, both hooks assigned and two notifiers created in advance,
  task A (which returns \<^verbatim>\<open>{v: 1}\<close>) and then task B (which fails with the error
  "boom") are pushed. The first notifier resolves with the fulfilled status and
  \<^verbatim>\<open>{name: 'A', response: {v: 1}}\<close>, the second with the rejected status and the
  error; \<^verbatim>\<open>taskCompleted\<close> is called once, with A's result, and \<^verbatim>\<open>onError\<close> once,
  with the error and \<^verbatim>\<open>{name: 'B'}\<close>. B is started only when A has completed, and the
  result is the same whether A completes before or after B is pushed, and whether B
  rejects or throws at the call.
\<close>

theorem scenario_A_then_B:
  "promises (run [SetOnError (Some h1), SetTaskCompleted (Some h2), CreateNotifier, CreateNotifier,
                  Push (Callable ''A'' (Returns (JObj [(''v'', JNum 1)]))),
                  Push (Callable ''B'' (Throws (JError ''boom''))),
                  Settle 0, Settle 0]
               (new_DeferQueue (Some 1))) =
     [Resolved (StatusFulfilled \<lparr>name = ''A'', response = Some (JObj [(''v'', JNum 1)])\<rparr>),
      Resolved (StatusRejected (JError ''boom''))] \<and>
   trace (run [SetOnError (Some h1), SetTaskCompleted (Some h2), CreateNotifier, CreateNotifier,
               Push (Callable ''A'' (Returns (JObj [(''v'', JNum 1)]))),
               Push (Callable ''B'' (Throws (JError ''boom''))),
               Settle 0, Settle 0]
            (new_DeferQueue (Some 1))) =
     [Invoked CallItself (Callable ''A'' (Returns (JObj [(''v'', JNum 1)]))),
      TaskCompletedCalled h2 \<lparr>name = ''A'', response = Some (JObj [(''v'', JNum 1)])\<rparr>,
      Invoked CallItself (Callable ''B'' (Throws (JError ''boom''))),
      OnErrorCalled h1 (JError ''boom'') \<lparr>name = ''B'', response = None\<rparr>] \<and>
   run [SetOnError (Some h1), SetTaskCompleted (Some h2), CreateNotifier, CreateNotifier,
        Push (Callable ''A'' (Returns (JObj [(''v'', JNum 1)]))), Settle 0,
        Push (Callable ''B'' (Throws (JError ''boom''))), Settle 0]
     (new_DeferQueue (Some 1)) =
   run [SetOnError (Some h1), SetTaskCompleted (Some h2), CreateNotifier, CreateNotifier,
        Push (Callable ''A'' (Returns (JObj [(''v'', JNum 1)]))),
        Push (Callable ''B'' (Throws (JError ''boom''))),
        Settle 0, Settle 0]
     (new_DeferQueue (Some 1)) \<and>
   promises (run [SetOnError (Some h1), SetTaskCompleted (Some h2), CreateNotifier, CreateNotifier,
                  Push (Callable ''A'' (Returns (JObj [(''v'', JNum 1)]))),
                  Push (Callable ''B'' (ThrowsAtCall (JError ''boom''))),
                  Settle 0]
               (new_DeferQueue (Some 1))) =
     [Resolved (StatusFulfilled \<lparr>name = ''A'', response = Some (JObj [(''v'', JNum 1)])\<rparr>),
      Resolved (StatusRejected (JError ''boom''))] \<and>
   trace (run [SetOnError (Some h1), SetTaskCompleted (Some h2), CreateNotifier, CreateNotifier,
               Push (Callable ''A'' (Returns (JObj [(''v'', JNum 1)]))),
               Push (Callable ''B'' (ThrowsAtCall (JError ''boom''))),
               Settle 0]
            (new_DeferQueue (Some 1))) =
     [Invoked CallItself (Callable ''A'' (Returns (JObj [(''v'', JNum 1)]))),
      TaskCompletedCalled h2 \<lparr>name = ''A'', response = Some (JObj [(''v'', JNum 1)])\<rparr>,
      Invoked CallItself (Callable ''B'' (ThrowsAtCall (JError ''boom''))),
      OnErrorCalled h1 (JError ''boom'') \<lparr>name = ''B'', response = None\<rparr>] \<and>
   run [SetOnError (Some h1), SetTaskCompleted (Some h2), CreateNotifier, CreateNotifier,
        Push (Callable ''A'' (Returns (JObj [(''v'', JNum 1)]))), Settle 0,
        Push (Callable ''B'' (ThrowsAtCall (JError ''boom'')))]
     (new_DeferQueue (Some 1)) =
   run [SetOnError (Some h1), SetTaskCompleted (Some h2), CreateNotifier, CreateNotifier,
        Push (Callable ''A'' (Returns (JObj [(''v'', JNum 1)]))),
        Push (Callable ''B'' (ThrowsAtCall (JError ''boom''))),
        Settle 0]
     (new_DeferQueue (Some 1))"
  by (simp add: new_DeferQueue_def createNotifier_def push_def emit_def
      fq_push_def fq_start_def worker_start_def settle_task_def worker_def notifier_def
      deferred_resolve_def fq_release_def call_drain_def settles_at_call_def Let_def)

section \<open>Killing the queue\<close>

lemma step_drainCallback:
  "drainCallback (do_step s q) = assigned_drained [s] (drainCallback q)"
proof (cases s)
  case (Push t)
  then show ?thesis
    by (cases "queued q") (simp_all add: push_queued push_started fq_start_fields)
next
  case (Unshift t)
  then show ?thesis
    by (cases "queued q") (simp_all add: unshift_queued unshift_started fq_start_fields)
next
  case (Settle i)
  then show ?thesis
    by (cases "i < length (running (fastQueue q))")
       (simp_all add: settle_task_fields, simp add: settle_task_def)
qed (simp_all add: createNotifier_fields pause_eq resume_fields kill_eq set_drained_fields)

lemma step_drain_synced:
  assumes "drain (fastQueue q) = drainCallback q"
  shows "drain (fastQueue (do_step s q)) = drainCallback (do_step s q)"
proof (cases s)
  case (Push t)
  with assms show ?thesis
    by (cases "queued q") (simp_all add: push_queued push_started fq_start_fields)
next
  case (Unshift t)
  with assms show ?thesis
    by (cases "queued q") (simp_all add: unshift_queued unshift_started fq_start_fields)
next
  case (Settle i)
  with assms show ?thesis
    by (cases "i < length (running (fastQueue q))")
       (simp_all add: settle_task_fields, simp add: settle_task_def)
qed (use assms in \<open>simp_all add: createNotifier_fields pause_eq resume_fields kill_eq
      set_drained_fields\<close>)

lemma assigned_drained_Cons:
  "assigned_drained (s # ss) h = assigned_drained ss (assigned_drained [s] h)"
  by (cases s) simp_all

lemma run_drainCallback:
  "drainCallback (run ss q) = assigned_drained ss (drainCallback q)"
proof (induction ss arbitrary: q)
  case Nil
  then show ?case by simp
next
  case (Cons s ss)
  from Cons.IH [of "do_step s q"] show ?case
    by (simp add: step_drainCallback assigned_drained_Cons [of s ss])
qed

lemma run_drain_synced:
  "drain (fastQueue q) = drainCallback q \<Longrightarrow>
   drain (fastQueue (run ss q)) = drainCallback (run ss q)"
  by (induction ss arbitrary: q) (simp_all add: step_drain_synced)

lemma settle_last_running:
  assumes "running (fastQueue q) = [t]" "pending (fastQueue q) = []"
  shows "trace (settle_task 0 q) =
           trace q @ hook_calls (fst (worker t)) (snd (worker t)) q @ call_drain (fastQueue q)"
  using assms
  by (simp add: settle_task_def split_beta Let_def notifier_fastQueue notifier_trace
      fq_release_def call_drain_def)

text \<open>
  C4. \<^verbatim>\<open>kill()\<close> leaves no pending task, so \<^verbatim>\<open>size()\<close> is 0 right after it,
  whatever was pending; during the call the function in the \<^verbatim>\<open>drained\<close> slot is
  called once and nothing else is; the running tasks are left alone; and afterwards the
  slot holds what the caller assigned last to \<^verbatim>\<open>drained\<close> (in every state a run of
  steps from a new queue can reach, the slot and the saved callback are that hook), so the
  completion of the last running task after the kill calls the caller's hook.
\<close>

theorem kill_flushes:
  "size_q (kill q) = 0 \<and>
   trace (kill q) =
     trace q @ (case get_drained q of Some h \<Rightarrow> [DrainedCalled h] | None \<Rightarrow> []) \<and>
   get_drained (kill q) = drainCallback q \<and>
   drainCallback (kill q) = drainCallback q \<and>
   running (fastQueue (kill q)) = running (fastQueue q) \<and>
   get_drained (run ss (new_DeferQueue c)) = assigned_drained ss None \<and>
   drainCallback (run ss (new_DeferQueue c)) = assigned_drained ss None \<and>
   get_drained (kill (run ss (new_DeferQueue c))) = assigned_drained ss None \<and>
   (running (fastQueue q) = [t] \<and> drainCallback q = Some h \<longrightarrow>
      trace (settle_task 0 (kill q)) =
        trace (kill q) @ hook_calls (fst (worker t)) (snd (worker t)) q @ [DrainedCalled h])"
proof -
  have 1: "size_q (kill q) = 0"
    by (simp add: size_q_def fq_length_def kill_eq)
  have 2: "trace (kill q) =
     trace q @ (case get_drained q of Some h \<Rightarrow> [DrainedCalled h] | None \<Rightarrow> [])"
    by (simp add: kill_eq call_drain_def get_drained_def)
  have 3: "get_drained (kill q) = drainCallback q" "drainCallback (kill q) = drainCallback q"
    "running (fastQueue (kill q)) = running (fastQueue q)"
    by (simp_all add: kill_eq get_drained_def)
  have 4: "drainCallback (run ss (new_DeferQueue c)) = assigned_drained ss None"
    using run_drainCallback [of ss "new_DeferQueue c"] by (simp add: new_DeferQueue_fields)
  have "drain (fastQueue (run ss (new_DeferQueue c))) = drainCallback (run ss (new_DeferQueue c))"
    by (rule run_drain_synced) (simp add: new_DeferQueue_fields)
  with 4 have 5: "get_drained (run ss (new_DeferQueue c)) = assigned_drained ss None"
    by (simp add: get_drained_def)
  from 4 have 7: "get_drained (kill (run ss (new_DeferQueue c))) = assigned_drained ss None"
    by (simp add: kill_eq get_drained_def)
  have 6: "trace (settle_task 0 (kill q)) =
        trace (kill q) @ hook_calls (fst (worker t)) (snd (worker t)) q @ [DrainedCalled h]"
    if "running (fastQueue q) = [t]" "drainCallback q = Some h"
  proof -
    have "running (fastQueue (kill q)) = [t]" "pending (fastQueue (kill q)) = []"
      "drain (fastQueue (kill q)) = Some h"
      using that by (simp_all add: kill_eq)
    from settle_last_running [OF this(1,2)] this(3) show ?thesis
      by (simp add: call_drain_def hook_calls_def kill_eq)
  qed
  show ?thesis
    using 1 2 3 4 5 6 7 by blast
qed

theorem kill_flushes_witness:
  "running (fastQueue (run [SetDrained 7, Push (Callable ''a'' (Returns JNull)), Pause,
       Push (Callable ''b'' (Returns JNull))] (new_DeferQueue None))) =
     [Callable ''a'' (Returns JNull)] \<and>
   drainCallback (run [SetDrained 7, Push (Callable ''a'' (Returns JNull)), Pause,
       Push (Callable ''b'' (Returns JNull))] (new_DeferQueue None)) = Some 7 \<and>
   size_q (run [SetDrained 7, Push (Callable ''a'' (Returns JNull)), Pause,
       Push (Callable ''b'' (Returns JNull))] (new_DeferQueue None)) = 1 \<and>
   size_q (kill (run [SetDrained 7, Push (Callable ''a'' (Returns JNull)), Pause,
       Push (Callable ''b'' (Returns JNull))] (new_DeferQueue None))) = 0 \<and>
   trace (settle_task 0 (kill (run [SetDrained 7, Push (Callable ''a'' (Returns JNull)), Pause,
       Push (Callable ''b'' (Returns JNull))] (new_DeferQueue None)))) =
     [Invoked CallItself (Callable ''a'' (Returns JNull)), DrainedCalled 7, DrainedCalled 7]"
proof -
  let ?a = "Callable ''a'' (Returns JNull)" and ?b = "Callable ''b'' (Returns JNull)"
  let ?q = "run [SetDrained 7, Push ?a, Pause, Push ?b] (new_DeferQueue None)"
  have q: "?q = \<lparr>drainCallback = Some 7,
      fastQueue = \<lparr>pending = [?b], running = [?a], paused = True, concurrency = 10,
                   drain = Some 7\<rparr>,
      notifiers = [], onError = None, taskCompleted = None, taskAdded = None,
      promises = [], trace = [Invoked CallItself ?a]\<rparr>"
    by (simp add: new_DeferQueue_def set_drained_def push_def fq_push_def fq_start_def
        worker_start_def settles_at_call_def emit_def pause_eq)
  from kill_flushes [of ?q "[]" None ?a 7]
  show ?thesis
    unfolding q by (simp add: size_q_def fq_length_def get_drained_def hook_calls_def worker_def)
qed

section \<open>What a step starts and delivers\<close>

lemma started_by_submit_split:
  "mset (filter (\<lambda>t. \<not> settles_at_call t) xs) + mset (filter settles_at_call xs) = mset xs"
  by (induction xs) simp_all

lemma step_started:
  "started_tasks (trace (do_step s q)) = started_tasks (trace q) @ starts s q"
proof (cases s)
  case (Push t)
  then show ?thesis
    by (cases "queued q") (simp_all add: push_queued push_started fq_start_fields)
next
  case (Unshift t)
  then show ?thesis
    by (cases "queued q") (simp_all add: unshift_queued unshift_started fq_start_fields)
next
  case (Settle i)
  then show ?thesis
    by (cases "i < length (running (fastQueue q))")
       (simp_all add: settle_task_fields, simp add: settle_task_def)
qed (simp_all add: createNotifier_fields pause_eq resume_fields kill_eq set_drained_fields)

lemma mset_without:
  "i < length xs \<Longrightarrow> add_mset (xs ! i) (mset (without i xs)) = mset xs"
  unfolding without_def
  by (metis Cons_nth_drop_Suc append_take_drop_id mset.simps(2) mset_append union_mset_add_mset_right)

lemma step_running:
  "mset (running (fastQueue (do_step s q))) + mset (delivered s q) =
   mset (running (fastQueue q)) + mset (starts s q)"
proof (cases s)
  case (Push t)
  then show ?thesis
    by (cases "queued q")
       (simp_all add: push_queued push_started fq_start_fields started_by_submit_split
          del: filter.simps)
next
  case (Unshift t)
  then show ?thesis
    by (cases "queued q")
       (simp_all add: unshift_queued unshift_started fq_start_fields started_by_submit_split
          del: filter.simps)
next
  case Resume
  then show ?thesis
    by (simp add: resume_fields started_by_submit_split)
next
  case (Settle i)
  show ?thesis
  proof (cases "i < length (running (fastQueue q))")
    case True
    with Settle mset_without [OF True]
      started_by_submit_split [of "newly_started (after_settle i (fastQueue q))"]
    show ?thesis
      by (simp add: settle_task_fields ac_simps)
  next
    case False
    with Settle show ?thesis by (simp add: settle_task_def)
  qed
qed (simp_all add: createNotifier_fields pause_eq kill_eq set_drained_fields)

lemma started_by_resume_pending:
  "mset (drop (length (started_by_resume fq)) (pending fq)) + mset (started_by_resume fq) =
   mset (pending fq)"
  by (metis add.commute append_take_drop_id mset_append started_by_resume_def length_take
      min_absorb2 taken_le)

lemma newly_started_pending:
  "mset (drop (length (newly_started fq)) (pending fq)) + mset (newly_started fq) =
   mset (pending fq)"
  by (metis add.commute append_take_drop_id mset_append newly_started_prefix)

lemma step_pending:
  "mset (pending (fastQueue (do_step s q))) + mset (starts s q) + mset (discarded_tasks [s] q) =
   mset (pending (fastQueue q)) + mset (admitted_tasks [s])"
proof (cases s)
  case (Push t)
  then show ?thesis
    using newly_started_pending [of "fastQueue q"]
    by (cases "queued q")
       (auto simp: push_queued push_started fq_start_fields started_by_submit_def)
next
  case (Unshift t)
  then show ?thesis
    using newly_started_pending [of "fastQueue q"]
    by (cases "queued q")
       (auto simp: unshift_queued unshift_started fq_start_fields started_by_submit_def)
next
  case Resume
  then show ?thesis
    using started_by_resume_pending [of "fastQueue q"] by (simp add: resume_fields)
next
  case (Settle i)
  show ?thesis
  proof (cases "i < length (running (fastQueue q))")
    case True
    with Settle newly_started_pending [of "after_settle i (fastQueue q)"]
    show ?thesis by (simp add: settle_task_fields)
  next
    case False
    with Settle show ?thesis by (simp add: settle_task_def)
  qed
qed (simp_all add: createNotifier_fields pause_eq kill_eq set_drained_fields)

lemma step_handler:
  assumes "s \<noteq> CreateNotifier"
  shows "notifiers (do_step s q) = notifiers (nrun (map completion_of (delivered s q)) q) \<and>
         promises (do_step s q) = promises (nrun (map completion_of (delivered s q)) q)"
proof (cases s)
  case (Push t)
  let ?q1 = "emit (added_calls t q) q"
  have s: "notifiers ?q1 = notifiers q" "promises ?q1 = promises q" by simp_all
  show ?thesis
  proof (cases "queued q")
    case True
    with Push show ?thesis by (simp add: push_queued)
  next
    case False
    with Push fq_start_handler [of t ?q1]
      nrun_same [OF s, of "map completion_of (filter settles_at_call (started_by_submit t (fastQueue q)))"]
    show ?thesis by (simp add: push_started)
  qed
next
  case (Unshift t)
  let ?q1 = "emit (added_calls t q) q"
  have s: "notifiers ?q1 = notifiers q" "promises ?q1 = promises q" by simp_all
  show ?thesis
  proof (cases "queued q")
    case True
    with Unshift show ?thesis by (simp add: unshift_queued)
  next
    case False
    with Unshift fq_start_handler [of t ?q1]
      nrun_same [OF s, of "map completion_of (filter settles_at_call (started_by_submit t (fastQueue q)))"]
    show ?thesis by (simp add: unshift_started)
  qed
next
  case Resume
  then show ?thesis by (simp add: resume_handler)
next
  case (Settle i)
  then show ?thesis
    by (cases "i < length (running (fastQueue q))")
       (simp_all add: settle_task_handler, simp add: settle_task_def)
qed (use assms in \<open>simp_all add: pause_eq kill_eq set_drained_fields\<close>)

section \<open>Counting tasks\<close>

lemma discarded_tasks_Cons:
  "discarded_tasks (s # ss) q = discarded_tasks [s] q @ discarded_tasks ss (do_step s q)"
  by (cases s) simp_all

lemma admitted_tasks_Cons: "admitted_tasks (s # ss) = admitted_tasks [s] @ admitted_tasks ss"
  by (cases s) simp_all

lemma run_pending:
  "mset (pending (fastQueue (run ss q))) + mset (started_tasks (trace (run ss q))) +
     mset (discarded_tasks ss q) =
   mset (pending (fastQueue q)) + mset (started_tasks (trace q)) + mset (admitted_tasks ss)"
proof (induction ss arbitrary: q)
  case Nil
  then show ?case by simp
next
  case (Cons s ss)
  let ?q' = "do_step s q"
  let ?Pf = "mset (pending (fastQueue (run ss ?q')))"
  let ?Sf = "mset (started_tasks (trace (run ss ?q')))"
  let ?P' = "mset (pending (fastQueue ?q'))" and ?S' = "mset (started_tasks (trace ?q'))"
  let ?P = "mset (pending (fastQueue q))" and ?S = "mset (started_tasks (trace q))"
  let ?D1 = "mset (discarded_tasks [s] q)" and ?D2 = "mset (discarded_tasks ss ?q')"
  let ?A1 = "mset (admitted_tasks [s])" and ?A2 = "mset (admitted_tasks ss)"
  have st: "?P' + ?S' + ?D1 = ?P + ?S + ?A1"
  proof -
    have "?P' + ?S' + ?D1 = ?S + (?P' + mset (starts s q) + ?D1)"
      by (simp add: step_started)
    also have "\<dots> = ?S + (?P + ?A1)"
      by (simp only: step_pending)
    finally show ?thesis by (simp add: ac_simps)
  qed
  have ih: "?Pf + ?Sf + ?D2 = ?P' + ?S' + ?A2"
    by (rule Cons.IH)
  have "?Pf + ?Sf + (?D1 + ?D2) = (?Pf + ?Sf + ?D2) + ?D1"
    by (simp add: ac_simps)
  also have "\<dots> = (?P' + ?S' + ?A2) + ?D1"
    by (simp only: ih)
  also have "\<dots> = (?P' + ?S' + ?D1) + ?A2"
    by (simp add: ac_simps)
  also have "\<dots> = (?P + ?S + ?A1) + ?A2"
    by (simp only: st)
  finally have "?Pf + ?Sf + (?D1 + ?D2) = ?P + ?S + (?A1 + ?A2)"
    by (simp add: ac_simps)
  then show ?case
    by (simp add: discarded_tasks_Cons [of s ss] admitted_tasks_Cons [of s ss])
qed

lemma run_running:
  "mset (running (fastQueue (run ss q))) + mset (delivered_in ss q) + mset (started_tasks (trace q)) =
   mset (running (fastQueue q)) + mset (started_tasks (trace (run ss q)))"
proof (induction ss arbitrary: q)
  case Nil
  then show ?case by simp
next
  case (Cons s ss)
  let ?q' = "do_step s q"
  let ?Rf = "mset (running (fastQueue (run ss ?q')))"
  let ?Sf = "mset (started_tasks (trace (run ss ?q')))"
  let ?R' = "mset (running (fastQueue ?q'))" and ?S' = "mset (started_tasks (trace ?q'))"
  let ?R = "mset (running (fastQueue q))" and ?S = "mset (started_tasks (trace q))"
  let ?D1 = "mset (delivered s q)" and ?D2 = "mset (delivered_in ss ?q')"
  have s': "?S' = ?S + mset (starts s q)"
    by (simp add: step_started)
  have st: "?R' + ?D1 = ?R + mset (starts s q)"
    by (rule step_running)
  have ih: "?Rf + ?D2 + ?S' = ?R' + ?Sf"
    by (rule Cons.IH)
  have "(?Rf + (?D1 + ?D2) + ?S) + mset (starts s q) = (?Rf + ?D2 + ?S') + ?D1"
    by (simp add: s' ac_simps)
  also have "\<dots> = (?R' + ?Sf) + ?D1"
    by (simp only: ih)
  also have "\<dots> = (?R' + ?D1) + ?Sf"
    by (simp add: ac_simps)
  also have "\<dots> = (?R + mset (starts s q)) + ?Sf"
    by (simp only: st)
  also have "\<dots> = (?R + ?Sf) + mset (starts s q)"
    by (simp add: ac_simps)
  finally have "?Rf + (?D1 + ?D2) + ?S = ?R + ?Sf"
    by (simp only: add_right_cancel)
  then show ?case by simp
qed





lemma taken_fills:
  "taken free ts = length ts \<or>
   free \<le> length (filter (\<lambda>t. \<not> settles_at_call t) (take (taken free ts) ts))"
proof (induction ts arbitrary: free)
  case Nil
  then show ?case by simp
next
  case (Cons t ts)
  from Cons.IH [of free] Cons.IH [of "free - 1"] show ?case
    by (cases "free = 0") auto
qed

lemma resume_fills:
  "pending (fastQueue (resume q)) = [] \<or>
   concurrency (fastQueue q) \<le> length (running (fastQueue (resume q)))"
  using taken_fills [of "free_slots (fastQueue q)" "pending (fastQueue q)"]
  by (auto simp: resume_fields started_by_resume_def free_slots_def)




section \<open>The order in which tasks are started\<close>

lemma started_by_resume_prefix:
  "take (length (started_by_resume fq)) (pending fq) = started_by_resume fq"
  by (simp add: started_by_resume_def min_absorb2 taken_le)

lemma quiet_step_order:
  assumes "quiet s"
  shows "pending (fastQueue (do_step s q)) = drop (length (starts s q)) (pending (fastQueue q)) \<and>
         started_tasks (trace (do_step s q)) =
           started_tasks (trace q) @ take (length (starts s q)) (pending (fastQueue q))"
proof (cases s)
  case Resume
  then show ?thesis
    by (simp add: resume_fields started_by_resume_prefix)
next
  case (Settle i)
  show ?thesis
  proof (cases "i < length (running (fastQueue q))")
    case True
    with Settle newly_started_prefix [of "after_settle i (fastQueue q)"] show ?thesis
      by (simp add: settle_task_fields)
  next
    case False
    with Settle show ?thesis by (simp add: settle_task_def)
  qed
qed (use assms in \<open>simp_all add: createNotifier_fields pause_eq set_drained_fields\<close>)

lemma quiet_run_order:
  assumes "\<forall>s \<in> set ss. quiet s"
  shows "\<exists>m. pending (fastQueue (run ss q)) = drop m (pending (fastQueue q)) \<and>
             started_tasks (trace (run ss q)) =
               started_tasks (trace q) @ take m (pending (fastQueue q))"
  using assms
proof (induction ss arbitrary: q)
  case Nil
  show ?case by (intro exI [of _ 0]) simp
next
  case (Cons s ss)
  from Cons.prems have "quiet s" by simp
  from quiet_step_order [OF this, of q] obtain m1
    where 1: "pending (fastQueue (do_step s q)) = drop m1 (pending (fastQueue q))"
      "started_tasks (trace (do_step s q)) =
         started_tasks (trace q) @ take m1 (pending (fastQueue q))"
    by blast
  from Cons.IH [of "do_step s q"] Cons.prems obtain m2
    where 2: "pending (fastQueue (run ss (do_step s q))) =
               drop m2 (pending (fastQueue (do_step s q)))"
      "started_tasks (trace (run ss (do_step s q))) =
         started_tasks (trace (do_step s q)) @ take m2 (pending (fastQueue (do_step s q)))"
    by auto
  show ?case
    using 1 2 by (intro exI [of _ "m1 + m2"]) (simp add: take_add add.commute)
qed

lemma fold_push_paused:
  assumes "paused (fastQueue q)"
  shows "pending (fastQueue (fold push ps q)) = pending (fastQueue q) @ ps \<and>
         running (fastQueue (fold push ps q)) = running (fastQueue q) \<and>
         concurrency (fastQueue (fold push ps q)) = concurrency (fastQueue q) \<and>
         paused (fastQueue (fold push ps q)) \<and>
         started_tasks (trace (fold push ps q)) = started_tasks (trace q)"
  using assms
proof (induction ps arbitrary: q)
  case Nil
  then show ?case by simp
next
  case (Cons p ps)
  from Cons.prems have "queued q" by (simp add: queued_def)
  with Cons.prems Cons.IH [of "push p q"] show ?case
    by (simp add: push_queued)
qed

lemma fold_unshift_paused:
  assumes "paused (fastQueue q)"
  shows "pending (fastQueue (fold unshift us q)) = rev us @ pending (fastQueue q) \<and>
         running (fastQueue (fold unshift us q)) = running (fastQueue q) \<and>
         concurrency (fastQueue (fold unshift us q)) = concurrency (fastQueue q) \<and>
         paused (fastQueue (fold unshift us q)) \<and>
         started_tasks (trace (fold unshift us q)) = started_tasks (trace q)"
  using assms
proof (induction us arbitrary: q)
  case Nil
  then show ?case by simp
next
  case (Cons u us)
  from Cons.prems have "queued q" by (simp add: queued_def)
  with Cons.prems Cons.IH [of "unshift u q"] show ?case
    by (simp add: unshift_queued)
qed

lemma resume_order:
  "pending (fastQueue (resume q)) =
     drop (taken (free_slots (fastQueue q)) (pending (fastQueue q))) (pending (fastQueue q))"
  "started_tasks (trace (resume q)) =
     started_tasks (trace q) @
     take (taken (free_slots (fastQueue q)) (pending (fastQueue q))) (pending (fastQueue q))"
  by (simp_all add: resume_fields started_by_resume_def min_absorb2 taken_le)

lemma take_min_length: "take (min n (length xs)) xs = take n xs"
  by (simp add: min_def)

lemma taken_plain:
  "\<forall>t \<in> set ts. \<not> settles_at_call t \<Longrightarrow> taken free ts = min free (length ts)"
  by (induction ts arbitrary: free) (auto simp: min_def)

text \<open>
  C8. On a paused queue, tasks pushed go to the back of the pending order and tasks
  unshifted to its front, so the pending order is the unshifted tasks, last unshifted
  first, then the tasks that were pending, then the pushed tasks in the order of the
  pushes; nothing is started meanwhile. \<^verbatim>\<open>resume\<close> starts tasks from the front of that
  order, at least as many as there are free slots, until nothing is pending or every slot
  is taken; it starts exactly as many as there are free slots when no operation throws at
  the call (a task that does gives its slot to the next one). As long as nothing is
  submitted or killed, the tasks started so far are a front part of that order and the
  pending ones the rest.
\<close>

theorem unshift_runs_first:
  assumes "paused (fastQueue q)"
  shows "pending (fastQueue (fold unshift us (fold push ps q))) =
           rev us @ pending (fastQueue q) @ ps \<and>
         started_tasks (trace (fold unshift us (fold push ps q))) = started_tasks (trace q) \<and>
         (\<exists>m. started_tasks (trace (resume (fold unshift us (fold push ps q)))) =
                 started_tasks (trace q) @ take m (rev us @ pending (fastQueue q) @ ps) \<and>
               pending (fastQueue (resume (fold unshift us (fold push ps q)))) =
                 drop m (rev us @ pending (fastQueue q) @ ps) \<and>
               min (concurrency (fastQueue q) - length (running (fastQueue q)))
                   (length (rev us @ pending (fastQueue q) @ ps)) \<le> m) \<and>
         (pending (fastQueue (resume (fold unshift us (fold push ps q)))) = [] \<or>
          concurrency (fastQueue q) \<le>
            length (running (fastQueue (resume (fold unshift us (fold push ps q)))))) \<and>
         ((\<forall>t \<in> set (rev us @ pending (fastQueue q) @ ps). \<not> settles_at_call t) \<longrightarrow>
            started_tasks (trace (resume (fold unshift us (fold push ps q)))) =
              started_tasks (trace q) @
              take (concurrency (fastQueue q) - length (running (fastQueue q)))
                (rev us @ pending (fastQueue q) @ ps)) \<and>
         ((\<forall>s \<in> set steps. quiet s) \<longrightarrow>
            (\<exists>m. started_tasks (trace (run (Resume # steps) (fold unshift us (fold push ps q)))) =
                    started_tasks (trace q) @ take m (rev us @ pending (fastQueue q) @ ps) \<and>
                  pending (fastQueue (run (Resume # steps) (fold unshift us (fold push ps q)))) =
                    drop m (rev us @ pending (fastQueue q) @ ps)))"
proof -
  let ?qp = "fold push ps q"
  let ?qu = "fold unshift us ?qp"
  let ?order = "rev us @ pending (fastQueue q) @ ps"
  let ?free = "concurrency (fastQueue q) - length (running (fastQueue q))"
  note p = fold_push_paused [OF assms, of ps]
  then have "paused (fastQueue ?qp)" by simp
  note u = fold_unshift_paused [OF this, of us]
  have pend: "pending (fastQueue ?qu) = ?order"
    and st: "started_tasks (trace ?qu) = started_tasks (trace q)"
    and fr: "free_slots (fastQueue ?qu) = ?free"
    and cc: "concurrency (fastQueue ?qu) = concurrency (fastQueue q)"
    using p u by (simp_all add: free_slots_def)
  let ?m = "taken ?free ?order"
  have r1: "started_tasks (trace (resume ?qu)) = started_tasks (trace q) @ take ?m ?order"
    using resume_order(2) [of ?qu] unfolding pend fr st .
  have r2: "pending (fastQueue (resume ?qu)) = drop ?m ?order"
    using resume_order(1) [of ?qu] unfolding pend fr .
  have r3: "min ?free (length ?order) \<le> ?m" by (rule taken_min)
  have res: "\<exists>m. started_tasks (trace (resume ?qu)) = started_tasks (trace q) @ take m ?order \<and>
               pending (fastQueue (resume ?qu)) = drop m ?order \<and>
               min ?free (length ?order) \<le> m"
    using r1 r2 r3 by blast
  have fill: "pending (fastQueue (resume ?qu)) = [] \<or>
              concurrency (fastQueue q) \<le> length (running (fastQueue (resume ?qu)))"
    using resume_fills [of ?qu] cc by simp
  have plain: "started_tasks (trace (resume ?qu)) = started_tasks (trace q) @ take ?free ?order"
    if "\<forall>t \<in> set ?order. \<not> settles_at_call t"
  proof -
    from taken_plain [OF that, of ?free] have "take ?m ?order = take ?free ?order"
      by (simp only: take_min_length)
    with r1 show ?thesis by (simp only:)
  qed
  have order: "\<exists>m. started_tasks (trace (run (Resume # steps) ?qu)) =
                    started_tasks (trace q) @ take m ?order \<and>
                  pending (fastQueue (run (Resume # steps) ?qu)) = drop m ?order"
    if "\<forall>s \<in> set steps. quiet s"
  proof -
    from that have "\<forall>s \<in> set (Resume # steps). quiet s" by simp
    from quiet_run_order [OF this, of ?qu] show ?thesis
      unfolding pend st by blast
  qed
  show ?thesis
    using pend st res fill plain order by blast
qed

theorem unshift_runs_first_witness:
  "paused (fastQueue (pause (new_DeferQueue (Some 1)))) \<and> quiet (Settle 0) \<and>
   \<not> settles_at_call (Callable ''createInvoice'' (Returns JNull)) \<and>
   \<not> settles_at_call (Callable ''sendEmail'' (Returns JNull)) \<and>
   \<not> settles_at_call (Callable ''report'' (Returns JNull)) \<and>
   pending (fastQueue
     (fold unshift [Callable ''sendEmail'' (Returns JNull), Callable ''createInvoice'' (Returns JNull)]
        (fold push [Callable ''report'' (Returns JNull)] (pause (new_DeferQueue (Some 1)))))) =
     [Callable ''createInvoice'' (Returns JNull), Callable ''sendEmail'' (Returns JNull),
      Callable ''report'' (Returns JNull)] \<and>
   started_tasks (trace (resume
     (fold unshift [Callable ''sendEmail'' (Returns JNull), Callable ''createInvoice'' (Returns JNull)]
        (fold push [Callable ''report'' (Returns JNull)] (pause (new_DeferQueue (Some 1))))))) =
     [Callable ''createInvoice'' (Returns JNull)]"
proof -
  let ?q = "pause (new_DeferQueue (Some 1))"
  have f: "paused (fastQueue ?q)" "pending (fastQueue ?q) = []" "running (fastQueue ?q) = []"
    "concurrency (fastQueue ?q) = 1" "trace ?q = []"
    by (simp_all add: pause_eq new_DeferQueue_def)
  have n: "\<not> settles_at_call (Callable ''createInvoice'' (Returns JNull))"
    "\<not> settles_at_call (Callable ''sendEmail'' (Returns JNull))"
    "\<not> settles_at_call (Callable ''report'' (Returns JNull))"
    by (simp_all add: settles_at_call_def)
  from unshift_runs_first [OF f(1),
      of "[Callable ''sendEmail'' (Returns JNull), Callable ''createInvoice'' (Returns JNull)]"
         "[Callable ''report'' (Returns JNull)]" "[Settle 0]"]
  show ?thesis
    using f n by simp
qed

text \<open>With one slot and a first pending task whose operation throws at the call,
  \<^verbatim>\<open>resume\<close> starts two tasks: the slot of the first is free again before the call
  of the worker returns.\<close>

lemma resume_after_throw_at_call:
  "started_tasks (trace (resume
     (fold push [Callable ''boom'' (ThrowsAtCall (JError ''failed'')), Callable ''report'' (Returns JNull)]
        (pause (new_DeferQueue (Some 1)))))) =
     [Callable ''boom'' (ThrowsAtCall (JError ''failed'')), Callable ''report'' (Returns JNull)] \<and>
   running (fastQueue (resume
     (fold push [Callable ''boom'' (ThrowsAtCall (JError ''failed'')), Callable ''report'' (Returns JNull)]
        (pause (new_DeferQueue (Some 1)))))) =
     [Callable ''report'' (Returns JNull)]"
  by (simp add: resume_fields started_by_resume_def free_slots_def settles_at_call_def
      push_queued queued_def pause_eq new_DeferQueue_def)

section \<open>Submission\<close>

lemma invocations_append [simp]:
  "invocations (es @ fs) = invocations es @ invocations fs"
  by (induction es rule: invocations.induct) simp_all

lemma normal_append:
  "normal_invocations es \<Longrightarrow> normal_invocations fs \<Longrightarrow> normal_invocations (es @ fs)"
  by (simp add: normal_invocations_def)

lemma normal_basic [simp]:
  "normal_invocations []"
  "normal_invocations (worker_start t)"
  "normal_invocations (call_drain fq)"
  "normal_invocations (hook_calls e r q)"
  "normal_invocations (added_calls t q)"
  by (simp_all add: normal_invocations_def worker_start_def call_drain_def hook_calls_def
      added_calls_def split: option.splits)

text \<open>Every method only adds to the record of calls, and every call of an operation it
  adds is the call the worker makes.\<close>

lemma fq_next_trace:
  "\<exists>es. trace (fq_next ts q) = trace q @ es \<and> normal_invocations es"
proof (induction ts arbitrary: q)
  case Nil
  show ?case
    by (cases "running (fastQueue q) = []") (simp_all add: Let_def)
next
  case (Cons t ts)
  show ?case
  proof (cases "length (running (fastQueue q)) < concurrency (fastQueue q)")
    case False
    then show ?thesis by simp
  next
    case slot: True
    let ?q1 = "emit (worker_start t) (q\<lparr>fastQueue := (fastQueue q)\<lparr>pending := ts\<rparr>\<rparr>)"
    show ?thesis
    proof (cases "settles_at_call t")
      case True
      let ?q2 = "notifier (fst (worker t)) (snd (worker t)) ?q1"
      have e: "fq_next (t # ts) q = fq_next ts ?q2"
        using slot True by (simp add: Let_def)
      obtain es where es: "trace (fq_next ts ?q2) = trace ?q2 @ es" "normal_invocations es"
        using Cons.IH [of ?q2] by blast
      have t2: "trace ?q2 =
          trace q @ worker_start t @ hook_calls (fst (worker t)) (snd (worker t)) ?q1"
        by (simp add: notifier_trace)
      have "normal_invocations
          (worker_start t @ hook_calls (fst (worker t)) (snd (worker t)) ?q1 @ es)"
        using es(2) by (intro normal_append) simp_all
      with es(1) t2 show ?thesis unfolding e by simp
    next
      case False
      let ?q2 = "?q1\<lparr>fastQueue := (fastQueue ?q1)\<lparr>running := running (fastQueue ?q1) @ [t]\<rparr>\<rparr>"
      have e: "fq_next (t # ts) q = fq_next ts ?q2"
        using slot False by (simp add: Let_def)
      obtain es where es: "trace (fq_next ts ?q2) = trace ?q2 @ es" "normal_invocations es"
        using Cons.IH [of ?q2] by blast
      have "normal_invocations (worker_start t @ es)"
        using es(2) by (intro normal_append) simp_all
      with es(1) show ?thesis unfolding e by simp
    qed
  qed
qed

lemma fq_release_trace:
  "\<exists>es. trace (fq_release q) = trace q @ es \<and> normal_invocations es"
  using fq_next_trace [of "pending (fastQueue q)" q]
  by (cases "paused (fastQueue q) \<and> pending (fastQueue q) \<noteq> []") (simp_all add: fq_release_def)

lemma fq_start_trace:
  "\<exists>es. trace (fq_start t q) = trace q @ worker_start t @ es \<and> normal_invocations es"
proof (cases "settles_at_call t")
  case True
  let ?q1 = "emit (worker_start t) q"
  let ?q2 = "notifier (fst (worker t)) (snd (worker t)) ?q1"
  obtain es where es: "trace (fq_release ?q2) = trace ?q2 @ es" "normal_invocations es"
    using fq_release_trace [of ?q2] by blast
  have "normal_invocations (hook_calls (fst (worker t)) (snd (worker t)) ?q1 @ es)"
    using es(2) by (intro normal_append) simp_all
  with es(1) True show ?thesis
    by (simp add: fq_start_def Let_def notifier_trace)
next
  case False
  then show ?thesis by (simp add: fq_start_def Let_def)
qed

lemma push_trace:
  "\<exists>es. trace (push t q) = trace q @ added_calls t q @ es \<and> normal_invocations es \<and>
        (queued q \<longrightarrow> es = []) \<and>
        (\<not> queued q \<longrightarrow> (\<exists>fs. es = Invoked (fst (invoke t)) t # fs \<and> normal_invocations fs))"
proof (cases "queued q")
  case True
  then show ?thesis by (simp add: push_queued)
next
  case False
  obtain fs where fs: "trace (fq_start t (emit (added_calls t q) q)) =
      trace (emit (added_calls t q) q) @ worker_start t @ fs" "normal_invocations fs"
    using fq_start_trace [of t "emit (added_calls t q) q"] by blast
  have "normal_invocations (worker_start t @ fs)"
    using fs(2) by (intro normal_append) simp_all
  with fs False show ?thesis
    by (simp add: push_started worker_start_def)
qed

lemma unshift_trace:
  "\<exists>es. trace (unshift t q) = trace q @ added_calls t q @ es \<and> normal_invocations es"
proof (cases "queued q")
  case True
  then show ?thesis by (simp add: unshift_queued)
next
  case False
  obtain es where "trace (push t q) = trace q @ added_calls t q @ es" "normal_invocations es"
    using push_trace [of t q] by blast
  with False have "trace (unshift t q) = trace q @ added_calls t q @ es \<and> normal_invocations es"
    by (simp add: push_started unshift_started)
  then show ?thesis by (rule exI)
qed

lemma step_trace:
  "\<exists>es. trace (do_step s q) = trace q @ es \<and> normal_invocations es"
proof (cases s)
  case (Push t)
  obtain es where "trace (push t q) = trace q @ added_calls t q @ es" "normal_invocations es"
    using push_trace [of t q] by blast
  moreover from this have "normal_invocations (added_calls t q @ es)"
    by (intro normal_append) simp_all
  ultimately show ?thesis using Push by simp
next
  case (Unshift t)
  obtain es where "trace (unshift t q) = trace q @ added_calls t q @ es" "normal_invocations es"
    using unshift_trace [of t q] by blast
  moreover from this have "normal_invocations (added_calls t q @ es)"
    by (intro normal_append) simp_all
  ultimately show ?thesis using Unshift by simp
next
  case Resume
  let ?q1 = "q\<lparr>fastQueue := (fastQueue q)\<lparr>paused := False\<rparr>\<rparr>"
  from resume_next [of q] fq_next_trace [of "pending (fastQueue q)" ?q1] Resume
  show ?thesis by auto
next
  case (Settle i)
  show ?thesis
  proof (cases "i < length (running (fastQueue q))")
    case True
    let ?r = "running (fastQueue q) ! i"
    let ?q2 = "(notifier (fst (worker ?r)) (snd (worker ?r)) q)\<lparr>fastQueue := after_settle i (fastQueue q)\<rparr>"
    obtain es where es: "trace (fq_release ?q2) = trace ?q2 @ es" "normal_invocations es"
      using fq_release_trace [of ?q2] by blast
    have "normal_invocations (hook_calls (fst (worker ?r)) (snd (worker ?r)) q @ es)"
      using es(2) by (intro normal_append) simp_all
    with es(1) Settle show ?thesis
      by (simp add: settle_task_eq [OF True] notifier_trace)
  next
    case False
    with Settle show ?thesis by (simp add: settle_task_def)
  qed
next
  case Kill
  then show ?thesis by (simp add: kill_eq)
qed (simp_all add: createNotifier_fields pause_eq set_drained_fields)

lemma run_normal:
  "normal_invocations (trace q) \<Longrightarrow> normal_invocations (trace (run ss q))"
proof (induction ss arbitrary: q)
  case Nil
  then show ?case by simp
next
  case (Cons s ss)
  obtain es where "trace (do_step s q) = trace q @ es" "normal_invocations es"
    using step_trace [of s q] by blast
  with Cons.prems have "normal_invocations (trace (do_step s q))"
    by (simp add: normal_append)
  from Cons.IH [OF this] show ?case by simp
qed

lemma push_fields:
  "drainCallback (push t q) = drainCallback q"
  "onError (push t q) = onError q"
  "taskCompleted (push t q) = taskCompleted q"
  "taskAdded (push t q) = taskAdded q"
  "paused (fastQueue (push t q)) = paused (fastQueue q)"
  "concurrency (fastQueue (push t q)) = concurrency (fastQueue q)"
  "drain (fastQueue (push t q)) = drain (fastQueue q)"
  by (cases "queued q"; simp add: push_queued push_started fq_start_fields)+

lemma unshift_fields:
  "drainCallback (unshift t q) = drainCallback q"
  "onError (unshift t q) = onError q"
  "taskCompleted (unshift t q) = taskCompleted q"
  "taskAdded (unshift t q) = taskAdded q"
  "paused (fastQueue (unshift t q)) = paused (fastQueue q)"
  "concurrency (fastQueue (unshift t q)) = concurrency (fastQueue q)"
  "drain (fastQueue (unshift t q)) = drain (fastQueue q)"
  by (cases "queued q"; simp add: unshift_queued unshift_started fq_start_fields)+

lemma worker_at_call:
  "snd (invoke t) = ThrowsAtCall e \<Longrightarrow>
   settles_at_call t \<and> worker t = (e, \<lparr>name = cb_name t, response = None\<rparr>)"
  by (simp add: settles_at_call_def worker_def)

lemma push_at_once:
  assumes "\<not> queued q"
  shows "\<not> settles_at_call t \<Longrightarrow>
         push t q =
           q\<lparr>fastQueue := (fastQueue q)\<lparr>running := running (fastQueue q) @ [t]\<rparr>,
             trace := trace q @ added_calls t q @ [Invoked (fst (invoke t)) t]\<rparr>"
    and "snd (invoke t) = ThrowsAtCall e \<Longrightarrow>
         push t q =
           fq_release (notifier e \<lparr>name = cb_name t, response = None\<rparr>
             (q\<lparr>trace := trace q @ added_calls t q @ [Invoked (fst (invoke t)) t]\<rparr>))"
  using assms
  by (simp_all add: push_started fq_start_def Let_def emit_def worker_start_def worker_at_call)

text \<open>
  C6. \<^verbatim>\<open>push\<close> and \<^verbatim>\<open>unshift\<close> return the queue for every task: the hooks, the
  saved drain callback and the settings of the executor are as before, and the record of
  calls is the old one with calls added. The first call added is that of the
  \<^verbatim>\<open>taskAdded\<close> hook, if assigned, with the task as submitted; whatever the executor
  does with the task comes after it. Where the executor queues the task, \<^verbatim>\<open>push\<close> puts
  it at the back and \<^verbatim>\<open>unshift\<close> at the front of the pending order, and nothing else
  happens; where it starts the task at once, the two agree, and the operation of the task
  is called right after the hook. If that call does not throw, the task is running when
  \<^verbatim>\<open>push\<close> returns. If it throws, the worker catches the value thrown: it is handed to
  \<^verbatim>\<open>#notifier\<close> with the name of the task, the slot is released, and \<^verbatim>\<open>push\<close>
  returns the queue all the same.
\<close>

theorem push_unshift_submission:
  "(queued q \<longrightarrow>
      push task q =
        q\<lparr>fastQueue := (fastQueue q)\<lparr>pending := pending (fastQueue q) @ [task]\<rparr>,
          trace := trace q @
            (case taskAdded q of Some h \<Rightarrow> [TaskAddedCalled h task] | None \<Rightarrow> [])\<rparr> \<and>
      unshift task q =
        q\<lparr>fastQueue := (fastQueue q)\<lparr>pending := task # pending (fastQueue q)\<rparr>,
          trace := trace q @
            (case taskAdded q of Some h \<Rightarrow> [TaskAddedCalled h task] | None \<Rightarrow> [])\<rparr>) \<and>
   (\<not> queued q \<longrightarrow>
      unshift task q = push task q \<and>
      (\<exists>es. trace (push task q) =
         trace q @ (case taskAdded q of Some h \<Rightarrow> [TaskAddedCalled h task] | None \<Rightarrow> []) @
         Invoked (fst (invoke task)) task # es) \<and>
      (\<not> settles_at_call task \<longrightarrow>
         push task q =
           q\<lparr>fastQueue := (fastQueue q)\<lparr>running := running (fastQueue q) @ [task]\<rparr>,
             trace := trace q @
               (case taskAdded q of Some h \<Rightarrow> [TaskAddedCalled h task] | None \<Rightarrow> []) @
               [Invoked (fst (invoke task)) task]\<rparr>) \<and>
      (snd (invoke task) = ThrowsAtCall e \<longrightarrow>
         settles_at_call task \<and>
         push task q =
           fq_release (notifier e \<lparr>name = cb_name task, response = None\<rparr>
             (q\<lparr>trace := trace q @
               (case taskAdded q of Some h \<Rightarrow> [TaskAddedCalled h task] | None \<Rightarrow> []) @
               [Invoked (fst (invoke task)) task]\<rparr>)))) \<and>
   drainCallback (push task q) = drainCallback q \<and>
   onError (push task q) = onError q \<and>
   taskCompleted (push task q) = taskCompleted q \<and>
   taskAdded (push task q) = taskAdded q \<and>
   paused (fastQueue (push task q)) = paused (fastQueue q) \<and>
   concurrency (fastQueue (push task q)) = concurrency (fastQueue q) \<and>
   drain (fastQueue (push task q)) = drain (fastQueue q) \<and>
   drainCallback (unshift task q) = drainCallback q \<and>
   onError (unshift task q) = onError q \<and>
   taskCompleted (unshift task q) = taskCompleted q \<and>
   taskAdded (unshift task q) = taskAdded q \<and>
   paused (fastQueue (unshift task q)) = paused (fastQueue q) \<and>
   concurrency (fastQueue (unshift task q)) = concurrency (fastQueue q) \<and>
   drain (fastQueue (unshift task q)) = drain (fastQueue q) \<and>
   (\<exists>es. trace (push task q) =
      trace q @ (case taskAdded q of Some h \<Rightarrow> [TaskAddedCalled h task] | None \<Rightarrow> []) @ es) \<and>
   (\<exists>es. trace (unshift task q) =
      trace q @ (case taskAdded q of Some h \<Rightarrow> [TaskAddedCalled h task] | None \<Rightarrow> []) @ es)"
proof -
  have ac: "(case taskAdded q of Some h \<Rightarrow> [TaskAddedCalled h task] | None \<Rightarrow> []) =
            added_calls task q"
    by (simp add: added_calls_def)
  have a: "queued q \<longrightarrow>
      push task q =
        q\<lparr>fastQueue := (fastQueue q)\<lparr>pending := pending (fastQueue q) @ [task]\<rparr>,
          trace := trace q @ added_calls task q\<rparr> \<and>
      unshift task q =
        q\<lparr>fastQueue := (fastQueue q)\<lparr>pending := task # pending (fastQueue q)\<rparr>,
          trace := trace q @ added_calls task q\<rparr>"
    using push_queued [of q task] unshift_queued [of q task] by blast
  have b1: "\<not> queued q \<longrightarrow> unshift task q = push task q"
    by (simp add: push_started unshift_started)
  have b2: "\<not> queued q \<longrightarrow>
      (\<exists>es. trace (push task q) =
         trace q @ added_calls task q @ Invoked (fst (invoke task)) task # es)"
    using push_trace [of task q] by auto
  have b3: "\<not> queued q \<longrightarrow> \<not> settles_at_call task \<longrightarrow>
         push task q =
           q\<lparr>fastQueue := (fastQueue q)\<lparr>running := running (fastQueue q) @ [task]\<rparr>,
             trace := trace q @ added_calls task q @ [Invoked (fst (invoke task)) task]\<rparr>"
    using push_at_once(1) [of q task] by blast
  have b4: "\<not> queued q \<longrightarrow> snd (invoke task) = ThrowsAtCall e \<longrightarrow>
         settles_at_call task \<and>
         push task q =
           fq_release (notifier e \<lparr>name = cb_name task, response = None\<rparr>
             (q\<lparr>trace := trace q @ added_calls task q @ [Invoked (fst (invoke task)) task]\<rparr>))"
    using push_at_once(2) [of q task e] worker_at_call [of task e] by blast
  have c: "\<exists>es. trace (push task q) = trace q @ added_calls task q @ es"
    using push_trace [of task q] by blast
  have d: "\<exists>es. trace (unshift task q) = trace q @ added_calls task q @ es"
    using unshift_trace [of task q] by blast
  from a b1 b2 b3 b4 c d show ?thesis
    unfolding ac push_fields unshift_fields by blast
qed

theorem push_unshift_submission_witness:
  "queued (pause ((new_DeferQueue None)\<lparr>onError := Some 4, taskAdded := Some 3\<rparr>)) \<and>
   \<not> queued ((new_DeferQueue None)\<lparr>onError := Some 4, taskAdded := Some 3\<rparr>) \<and>
   \<not> settles_at_call (Named ''a'' (Returns JNull)) \<and>
   snd (invoke (Callable ''boom'' (ThrowsAtCall (JError ''failed'')))) =
     ThrowsAtCall (JError ''failed'') \<and>
   trace (push (Callable ''boom'' (ThrowsAtCall (JError ''failed'')))
           ((new_DeferQueue None)\<lparr>onError := Some 4, taskAdded := Some 3\<rparr>)) =
     [TaskAddedCalled 3 (Callable ''boom'' (ThrowsAtCall (JError ''failed''))),
      Invoked CallItself (Callable ''boom'' (ThrowsAtCall (JError ''failed''))),
      OnErrorCalled 4 (JError ''failed'') \<lparr>name = ''boom'', response = None\<rparr>] \<and>
   running (fastQueue (push (Callable ''boom'' (ThrowsAtCall (JError ''failed'')))
           ((new_DeferQueue None)\<lparr>onError := Some 4, taskAdded := Some 3\<rparr>))) = [] \<and>
   trace (push (Named ''a'' (Returns JNull))
           ((new_DeferQueue None)\<lparr>onError := Some 4, taskAdded := Some 3\<rparr>)) =
     [TaskAddedCalled 3 (Named ''a'' (Returns JNull)),
      Invoked CallRun (Named ''a'' (Returns JNull))] \<and>
   running (fastQueue (push (Named ''a'' (Returns JNull))
           ((new_DeferQueue None)\<lparr>onError := Some 4, taskAdded := Some 3\<rparr>))) =
     [Named ''a'' (Returns JNull)] \<and>
   pending (fastQueue (unshift (Named ''b'' (Returns JNull))
      (push (Named ''a'' (Returns JNull))
         (pause ((new_DeferQueue None)\<lparr>onError := Some 4, taskAdded := Some 3\<rparr>))))) =
     [Named ''b'' (Returns JNull), Named ''a'' (Returns JNull)]"
proof -
  let ?q = "(new_DeferQueue None)\<lparr>onError := Some 4, taskAdded := Some 3\<rparr>"
  let ?a = "Named ''a'' (Returns JNull)" and ?b = "Named ''b'' (Returns JNull)"
  let ?boom = "Callable ''boom'' (ThrowsAtCall (JError ''failed''))"
  have q1: "queued (pause ?q)" and q2: "\<not> queued ?q"
    by (simp_all add: queued_def pause_def fq_pause_def new_DeferQueue_def)
  have na: "\<not> settles_at_call ?a" by (simp add: settles_at_call_def)
  have tb: "snd (invoke ?boom) = ThrowsAtCall (JError ''failed'')" by simp
  have "push ?a (pause ?q) =
      (pause ?q)\<lparr>fastQueue := (fastQueue (pause ?q))\<lparr>pending := pending (fastQueue (pause ?q)) @ [?a]\<rparr>,
        trace := trace (pause ?q) @
          (case taskAdded (pause ?q) of Some h \<Rightarrow> [TaskAddedCalled h ?a] | None \<Rightarrow> [])\<rparr>"
    using push_unshift_submission [of "pause ?q" ?a] q1 by blast
  then have pa: "pending (fastQueue (push ?a (pause ?q))) = [?a]"
    "paused (fastQueue (push ?a (pause ?q)))"
    by (simp_all add: pause_def fq_pause_def new_DeferQueue_def)
  then have q3: "queued (push ?a (pause ?q))" by (simp add: queued_def)
  have "unshift ?b (push ?a (pause ?q)) =
      (push ?a (pause ?q))\<lparr>fastQueue := (fastQueue (push ?a (pause ?q)))
          \<lparr>pending := ?b # pending (fastQueue (push ?a (pause ?q)))\<rparr>,
        trace := trace (push ?a (pause ?q)) @
          (case taskAdded (push ?a (pause ?q)) of Some h \<Rightarrow> [TaskAddedCalled h ?b] | None \<Rightarrow> [])\<rparr>"
    using push_unshift_submission [of "push ?a (pause ?q)" ?b] q3 by blast
  then have "pending (fastQueue (unshift ?b (push ?a (pause ?q)))) =
      ?b # pending (fastQueue (push ?a (pause ?q)))"
    by simp
  with pa have c1: "pending (fastQueue (unshift ?b (push ?a (pause ?q)))) = [?b, ?a]"
    by simp
  have "push ?a ?q =
      ?q\<lparr>fastQueue := (fastQueue ?q)\<lparr>running := running (fastQueue ?q) @ [?a]\<rparr>,
         trace := trace ?q @
           (case taskAdded ?q of Some h \<Rightarrow> [TaskAddedCalled h ?a] | None \<Rightarrow> []) @
           [Invoked (fst (invoke ?a)) ?a]\<rparr>"
    using push_unshift_submission [of ?q ?a] q2 na by blast
  then have c2: "trace (push ?a ?q) = [TaskAddedCalled 3 ?a, Invoked CallRun ?a]"
    "running (fastQueue (push ?a ?q)) = [?a]"
    by (simp_all add: new_DeferQueue_def)
  have "push ?boom ?q =
      fq_release (notifier (JError ''failed'') \<lparr>name = cb_name ?boom, response = None\<rparr>
        (?q\<lparr>trace := trace ?q @
           (case taskAdded ?q of Some h \<Rightarrow> [TaskAddedCalled h ?boom] | None \<Rightarrow> []) @
           [Invoked (fst (invoke ?boom)) ?boom]\<rparr>))"
    using push_unshift_submission [of ?q ?boom "JError ''failed''"] q2 tb by blast
  then have c3: "trace (push ?boom ?q) =
      [TaskAddedCalled 3 ?boom, Invoked CallItself ?boom,
       OnErrorCalled 4 (JError ''failed'') \<lparr>name = ''boom'', response = None\<rparr>]"
    "running (fastQueue (push ?boom ?q)) = []"
    by (simp_all add: new_DeferQueue_def fq_release_def notifier_def emit_def Let_def
        call_drain_def)
  from q1 q2 na tb c1 c2 c3 show ?thesis by simp
qed

section \<open>The shape of a task\<close>

lemma worker_name:
  "snd (worker task) =
     \<lparr>name = cb_name task,
      response = (case snd (invoke task) of
                    Returns r \<Rightarrow> Some r | Throws e \<Rightarrow> None | ThrowsAtCall e \<Rightarrow> None)\<rparr>"
  by (simp add: worker_def split: settle.splits)

lemma push_calls:
  assumes "\<not> queued q"
  shows "\<exists>es. trace (push task q) =
           trace q @ added_calls task q @ Invoked (fst (invoke task)) task # es \<and>
           invocations es =
             map (\<lambda>t. (fst (invoke t), t))
               (if settles_at_call task then newly_started (fastQueue q) else [])"
proof -
  obtain fs where fs: "trace (push task q) =
      trace q @ added_calls task q @ Invoked (fst (invoke task)) task # fs"
    "normal_invocations fs"
    using push_trace [of task q] assms by auto
  have "started_tasks (trace (push task q)) =
      started_tasks (trace q) @ started_by_submit task (fastQueue q)"
    using assms by (simp add: push_started fq_start_fields)
  then have "started_tasks fs = (if settles_at_call task then newly_started (fastQueue q) else [])"
    unfolding fs(1) by (simp add: started_by_submit_def)
  with fs(2) have "invocations fs =
      map (\<lambda>t. (fst (invoke t), t))
        (if settles_at_call task then newly_started (fastQueue q) else [])"
    by (simp only: normal_invocations_def)
  with fs(1) show ?thesis by blast
qed

lemma new_normal: "normal_invocations (trace (new_DeferQueue c))"
  by (simp add: new_DeferQueue_def)

lemma new_run_pending:
  "mset (started_tasks (trace (run ss (new_DeferQueue c)))) +
     mset (pending (fastQueue (run ss (new_DeferQueue c)))) +
     mset (discarded_tasks ss (new_DeferQueue c)) =
   mset (admitted_tasks ss)"
  using run_pending [of ss "new_DeferQueue c"]
  by (simp add: new_DeferQueue_fields add.commute)

lemma new_run_running:
  "mset (delivered_in ss (new_DeferQueue c)) +
     mset (running (fastQueue (run ss (new_DeferQueue c)))) =
   mset (started_tasks (trace (run ss (new_DeferQueue c))))"
  using run_running [of ss "new_DeferQueue c"]
  by (simp add: new_DeferQueue_fields add.commute)

text \<open>
  C7. The task is looked at by the worker alone, when the executor runs it. For a function
  the operation called is the function itself and the name reported is the function's own
  name; for a named record the operation is its \<^verbatim>\<open>run\<close> method and the name its
  \<^verbatim>\<open>name\<close> field; the task result the worker reports carries that name. At
  submission the \<^verbatim>\<open>taskAdded\<close> hook receives the task as submitted; a queued task is
  stored as submitted and no operation is called; a task started at once has its operation
  called right after the hook, followed only by the calls for pending tasks that take its
  slot if the call throws. In every run from a new queue each call of an operation on
  record is the call the worker makes for its task; every admitted task has had its
  operation called once, or is pending, or was discarded by \<^verbatim>\<open>kill\<close>; every task
  whose operation was called is running or has had its completion delivered once; and the
  completions a step delivers to \<^verbatim>\<open>#notifier\<close> are those of the tasks counted as
  delivered.
\<close>

theorem task_normalization:
  "invoke (Callable n b) = (CallItself, b) \<and>
   cb_name (Callable n b) = n \<and>
   invoke (Named n b) = (CallRun, b) \<and>
   cb_name (Named n b) = n \<and>
   worker_start task = [Invoked (fst (invoke task)) task] \<and>
   snd (worker task) =
     \<lparr>name = cb_name task,
      response = (case snd (invoke task) of
                    Returns r \<Rightarrow> Some r | Throws e \<Rightarrow> None | ThrowsAtCall e \<Rightarrow> None)\<rparr> \<and>
   (queued q \<longrightarrow>
      trace (push task q) =
        trace q @ (case taskAdded q of Some h \<Rightarrow> [TaskAddedCalled h task] | None \<Rightarrow> []) \<and>
      pending (fastQueue (push task q)) = pending (fastQueue q) @ [task] \<and>
      trace (unshift task q) =
        trace q @ (case taskAdded q of Some h \<Rightarrow> [TaskAddedCalled h task] | None \<Rightarrow> []) \<and>
      pending (fastQueue (unshift task q)) = task # pending (fastQueue q)) \<and>
   (\<not> queued q \<longrightarrow>
      unshift task q = push task q \<and>
      (\<exists>es. trace (push task q) =
         trace q @ (case taskAdded q of Some h \<Rightarrow> [TaskAddedCalled h task] | None \<Rightarrow> []) @
         Invoked (fst (invoke task)) task # es \<and>
         invocations es =
           map (\<lambda>t. (fst (invoke t), t))
             (if settles_at_call task then newly_started (fastQueue q) else []))) \<and>
   invocations (trace (run ss (new_DeferQueue c))) =
     map (\<lambda>t. (fst (invoke t), t)) (started_tasks (trace (run ss (new_DeferQueue c)))) \<and>
   mset (started_tasks (trace (run ss (new_DeferQueue c)))) +
     mset (pending (fastQueue (run ss (new_DeferQueue c)))) +
     mset (discarded_tasks ss (new_DeferQueue c)) =
   mset (admitted_tasks ss) \<and>
   mset (delivered_in ss (new_DeferQueue c)) +
     mset (running (fastQueue (run ss (new_DeferQueue c)))) =
   mset (started_tasks (trace (run ss (new_DeferQueue c)))) \<and>
   (s \<noteq> CreateNotifier \<longrightarrow>
      notifiers (do_step s q) = notifiers (nrun (map completion_of (delivered s q)) q) \<and>
      promises (do_step s q) = promises (nrun (map completion_of (delivered s q)) q))"
proof -
  have ac: "(case taskAdded q of Some h \<Rightarrow> [TaskAddedCalled h task] | None \<Rightarrow> []) =
            added_calls task q"
    by (simp add: added_calls_def)
  have a: "queued q \<longrightarrow>
      trace (push task q) = trace q @ added_calls task q \<and>
      pending (fastQueue (push task q)) = pending (fastQueue q) @ [task] \<and>
      trace (unshift task q) = trace q @ added_calls task q \<and>
      pending (fastQueue (unshift task q)) = task # pending (fastQueue q)"
    by (simp add: push_queued unshift_queued)
  have b: "\<not> queued q \<longrightarrow>
      unshift task q = push task q \<and>
      (\<exists>es. trace (push task q) =
         trace q @ added_calls task q @ Invoked (fst (invoke task)) task # es \<and>
         invocations es =
           map (\<lambda>t. (fst (invoke t), t))
             (if settles_at_call task then newly_started (fastQueue q) else []))"
    using push_calls [of q task] by (simp add: push_started unshift_started)
  have c: "invocations (trace (run ss (new_DeferQueue c))) =
     map (\<lambda>t. (fst (invoke t), t)) (started_tasks (trace (run ss (new_DeferQueue c))))"
    using run_normal [OF new_normal, of ss c] by (simp only: normal_invocations_def)
  have d: "s \<noteq> CreateNotifier \<longrightarrow>
      notifiers (do_step s q) = notifiers (nrun (map completion_of (delivered s q)) q) \<and>
      promises (do_step s q) = promises (nrun (map completion_of (delivered s q)) q)"
    using step_handler [of s q] by blast
  have e: "invoke (Callable n b) = (CallItself, b)" "cb_name (Callable n b) = n"
    "invoke (Named n b) = (CallRun, b)" "cb_name (Named n b) = n"
    "worker_start task = [Invoked (fst (invoke task)) task]"
    by (simp_all add: worker_start_def)
  from a b c d e worker_name [of task] new_run_pending [of ss c] new_run_running [of ss c]
  show ?thesis unfolding ac by blast
qed

theorem task_normalization_witness:
  "queued (pause ((new_DeferQueue None)\<lparr>taskAdded := Some 3\<rparr>)) \<and>
   \<not> queued ((new_DeferQueue None)\<lparr>taskAdded := Some 3\<rparr>) \<and>
   Resume \<noteq> CreateNotifier \<and>
   trace (push (Named ''sendEmail'' (Returns (JBool True)))
            (pause ((new_DeferQueue None)\<lparr>taskAdded := Some 3\<rparr>))) =
     [TaskAddedCalled 3 (Named ''sendEmail'' (Returns (JBool True)))] \<and>
   pending (fastQueue (push (Named ''sendEmail'' (Returns (JBool True)))
            (pause ((new_DeferQueue None)\<lparr>taskAdded := Some 3\<rparr>)))) =
     [Named ''sendEmail'' (Returns (JBool True))] \<and>
   (\<exists>es. trace (push (Named ''sendEmail'' (Returns (JBool True)))
            ((new_DeferQueue None)\<lparr>taskAdded := Some 3\<rparr>)) =
       [TaskAddedCalled 3 (Named ''sendEmail'' (Returns (JBool True))),
        Invoked CallRun (Named ''sendEmail'' (Returns (JBool True)))] @ es \<and>
      invocations es = []) \<and>
   notifiers (do_step Resume (snd (createNotifier (push (Callable ''boom'' (ThrowsAtCall JNull))
      (pause (new_DeferQueue None)))))) = []"
proof -
  let ?q = "(new_DeferQueue None)\<lparr>taskAdded := Some 3\<rparr>"
  let ?t = "Named ''sendEmail'' (Returns (JBool True))"
  let ?boom = "Callable ''boom'' (ThrowsAtCall JNull)"
  let ?p = "snd (createNotifier (push ?boom (pause (new_DeferQueue None))))"
  have f: "paused (fastQueue (pause ?q))" "pending (fastQueue (pause ?q)) = []"
    "trace (pause ?q) = []" "taskAdded (pause ?q) = Some 3"
    "\<not> paused (fastQueue ?q)" "running (fastQueue ?q) = []" "concurrency (fastQueue ?q) = 10"
    "trace ?q = []" "taskAdded ?q = Some 3" "pending (fastQueue ?q) = []"
    by (simp_all add: pause_def fq_pause_def new_DeferQueue_def)
  then have q1: "queued (pause ?q)" and q2: "\<not> queued ?q" by (simp_all add: queued_def)
  have ns: "\<not> settles_at_call ?t" by (simp add: settles_at_call_def)
  have "trace (push ?t (pause ?q)) =
      trace (pause ?q) @ (case taskAdded (pause ?q) of Some h \<Rightarrow> [TaskAddedCalled h ?t] | None \<Rightarrow> []) \<and>
    pending (fastQueue (push ?t (pause ?q))) = pending (fastQueue (pause ?q)) @ [?t]"
    using task_normalization [of _ _ ?t "pause ?q"] q1 by blast
  then have c1: "trace (push ?t (pause ?q)) = [TaskAddedCalled 3 ?t]"
    "pending (fastQueue (push ?t (pause ?q))) = [?t]"
    using f by simp_all
  have "\<exists>es. trace (push ?t ?q) =
         trace ?q @ (case taskAdded ?q of Some h \<Rightarrow> [TaskAddedCalled h ?t] | None \<Rightarrow> []) @
         Invoked (fst (invoke ?t)) ?t # es \<and>
         invocations es =
           map (\<lambda>t. (fst (invoke t), t))
             (if settles_at_call ?t then newly_started (fastQueue ?q) else [])"
    using task_normalization [of _ _ ?t ?q] q2 by blast
  then have c2: "\<exists>es. trace (push ?t ?q) =
       [TaskAddedCalled 3 ?t, Invoked CallRun ?t] @ es \<and> invocations es = []"
    using f ns by simp
  have p: "pending (fastQueue ?p) = [?boom]" "running (fastQueue ?p) = []"
    "concurrency (fastQueue ?p) = 10" "notifiers ?p = [0]"
    by (simp_all add: createNotifier_def pause_def fq_pause_def new_DeferQueue_def push_def
        fq_push_def Let_def)
  have sb: "settles_at_call ?boom" by (simp add: settles_at_call_def)
  have d: "delivered Resume ?p = [?boom]"
    using p sb by (simp add: started_by_resume_def free_slots_def)
  have "notifiers (do_step Resume ?p) =
      notifiers (nrun (map completion_of (delivered Resume ?p)) ?p)"
    using task_normalization [of _ _ _ ?p _ _ Resume] by blast
  then have c3: "notifiers (do_step Resume ?p) = []"
    unfolding d using p(4) by (simp add: completion_of_def notifier_notifiers)
  from q1 q2 c1 c2 c3 show ?thesis by simp
qed

section \<open>After a kill\<close>

lemma run_append: "run (xs @ ys) q = run ys (run xs q)"
  by (induction xs arbitrary: q) simp_all

lemma settle_idle:
  "running (fastQueue s) = [] \<Longrightarrow> run (replicate n (Settle 0)) s = s"
  by (induction n) (simp_all add: settle_task_def)

lemma settle_trace:
  assumes "running (fastQueue s) = r # rs" "pending (fastQueue s) = []"
  shows "trace (settle_task 0 s) =
           trace s @ hook_calls (fst (worker r)) (snd (worker r)) s @
           (if rs = [] then call_drain (fastQueue s) else [])"
  using assms
  by (simp add: settle_task_def split_beta Let_def notifier_fastQueue notifier_trace
      fq_release_def call_drain_def)

lemma newly_started_Nil: "pending fq = [] \<Longrightarrow> newly_started fq = []"
  by (simp add: newly_started_def)

text \<open>The oldest running task completes and nothing is pending.\<close>

lemma settle_oldest:
  assumes "running (fastQueue s) = r # rs" "pending (fastQueue s) = []"
  shows "running (fastQueue (settle_task 0 s)) = rs"
    and "pending (fastQueue (settle_task 0 s)) = []"
    and "drain (fastQueue (settle_task 0 s)) = drain (fastQueue s)"
    and "started_tasks (trace (settle_task 0 s)) = started_tasks (trace s)"
    and "drained_calls (trace (settle_task 0 s)) =
           drained_calls (trace s) @
           (if rs = [] then (case drain (fastQueue s) of Some h \<Rightarrow> [h] | None \<Rightarrow> []) else [])"
    and "notifiers (settle_task 0 s) = notifiers (nstep (completion_of r) s)"
    and "promises (settle_task 0 s) = promises (nstep (completion_of r) s)"
proof -
  have i: "0 < length (running (fastQueue s))" using assms by simp
  have n: "newly_started (after_settle 0 (fastQueue s)) = []"
    using assms by (simp add: newly_started_Nil)
  show "running (fastQueue (settle_task 0 s)) = rs"
    "pending (fastQueue (settle_task 0 s)) = []"
    "drain (fastQueue (settle_task 0 s)) = drain (fastQueue s)"
    "started_tasks (trace (settle_task 0 s)) = started_tasks (trace s)"
    using assms n by (simp_all add: settle_task_fields [OF i])
  show "notifiers (settle_task 0 s) = notifiers (nstep (completion_of r) s)"
    "promises (settle_task 0 s) = promises (nstep (completion_of r) s)"
    using assms n by (simp_all add: settle_task_handler [OF i] completion_of_def)
  show "drained_calls (trace (settle_task 0 s)) =
           drained_calls (trace s) @
           (if rs = [] then (case drain (fastQueue s) of Some h \<Rightarrow> [h] | None \<Rightarrow> []) else [])"
    by (simp add: settle_trace [OF assms] drained_call_drain)
qed

lemma settle_all_running:
  assumes "pending (fastQueue s) = []" "running (fastQueue s) = rs" "rs \<noteq> []"
  shows "isIdle (run (replicate (length rs) (Settle 0)) s) \<and>
         started_tasks (trace (run (replicate (length rs) (Settle 0)) s)) =
           started_tasks (trace s) \<and>
         drained_calls (trace (run (replicate (length rs) (Settle 0)) s)) =
           drained_calls (trace s) @
           (case drain (fastQueue s) of Some h \<Rightarrow> [h] | None \<Rightarrow> []) \<and>
         (drain (fastQueue s) = Some h \<longrightarrow>
            last (trace (run (replicate (length rs) (Settle 0)) s)) = DrainedCalled h) \<and>
         notifiers (run (replicate (length rs) (Settle 0)) s) =
           notifiers (nrun (map completion_of rs) s) \<and>
         promises (run (replicate (length rs) (Settle 0)) s) =
           promises (nrun (map completion_of rs) s)"
  using assms
proof (induction rs arbitrary: s)
  case Nil
  then show ?case by simp
next
  case (Cons r rs)
  note s1 = settle_oldest [OF Cons.prems(2,1)]
  let ?s1 = "settle_task 0 s"
  show ?case
  proof (cases "rs = []")
    case True
    have "isIdle ?s1" using s1(1,2) True by (simp add: isIdle_def fq_idle_def)
    moreover have "drain (fastQueue s) = Some h \<longrightarrow> last (trace ?s1) = DrainedCalled h"
      using True by (simp add: settle_trace [OF Cons.prems(2,1)] call_drain_def)
    ultimately show ?thesis using True s1 by simp
  next
    case False
    note ih = Cons.IH [OF s1(2,1) False]
    note same = nrun_same [OF s1(6,7), of "map completion_of rs"]
    show ?thesis
      using ih same s1(3,4,5) False by simp
  qed
qed

text \<open>The running tasks complete, oldest first, with nothing pending; further completions
  of the oldest running task are asked for than tasks are running.\<close>

lemma settle_remaining:
  assumes "pending (fastQueue v) = []" "length (running (fastQueue v)) \<le> n"
  shows "isIdle (run (replicate n (Settle 0)) v)"
    and "started_tasks (trace (run (replicate n (Settle 0)) v)) = started_tasks (trace v)"
    and "drained_calls (trace (run (replicate n (Settle 0)) v)) =
           drained_calls (trace v) @
           (if running (fastQueue v) = [] then []
            else (case drain (fastQueue v) of Some h \<Rightarrow> [h] | None \<Rightarrow> []))"
    and "running (fastQueue v) \<noteq> [] \<Longrightarrow> drain (fastQueue v) = Some h \<Longrightarrow>
           last (trace (run (replicate n (Settle 0)) v)) = DrainedCalled h"
    and "notifiers (run (replicate n (Settle 0)) v) =
           notifiers (nrun (map completion_of (running (fastQueue v))) v)"
    and "promises (run (replicate n (Settle 0)) v) =
           promises (nrun (map completion_of (running (fastQueue v))) v)"
proof -
  let ?rs = "running (fastQueue v)"
  let ?f = "run (replicate n (Settle 0)) v"
  have all: "isIdle ?f \<and> started_tasks (trace ?f) = started_tasks (trace v) \<and>
      drained_calls (trace ?f) =
        drained_calls (trace v) @
        (if ?rs = [] then [] else (case drain (fastQueue v) of Some h \<Rightarrow> [h] | None \<Rightarrow> [])) \<and>
      (?rs \<noteq> [] \<longrightarrow> drain (fastQueue v) = Some h \<longrightarrow> last (trace ?f) = DrainedCalled h) \<and>
      notifiers ?f = notifiers (nrun (map completion_of ?rs) v) \<and>
      promises ?f = promises (nrun (map completion_of ?rs) v)"
  proof (cases "?rs = []")
    case True
    then have "?f = v" by (rule settle_idle)
    with True assms(1) show ?thesis by (simp add: isIdle_def fq_idle_def)
  next
    case False
    let ?g = "run (replicate (length ?rs) (Settle 0)) v"
    note g = settle_all_running [OF assms(1) refl False, of h]
    from g have "running (fastQueue ?g) = []" by (simp add: isIdle_def fq_idle_def)
    then have "run (replicate (n - length ?rs) (Settle 0)) ?g = ?g" by (rule settle_idle)
    moreover have "replicate n (Settle 0) =
        replicate (length ?rs) (Settle 0) @ replicate (n - length ?rs) (Settle 0)"
      using assms(2) by (simp add: replicate_add [symmetric])
    ultimately have "?f = ?g" by (simp only: run_append)
    with g False show ?thesis by simp
  qed
  from all show "isIdle ?f" by blast
  from all show "started_tasks (trace ?f) = started_tasks (trace v)" by blast
  from all show "drained_calls (trace ?f) =
        drained_calls (trace v) @
        (if ?rs = [] then [] else (case drain (fastQueue v) of Some h \<Rightarrow> [h] | None \<Rightarrow> []))"
    by blast
  from all show "?rs \<noteq> [] \<Longrightarrow> drain (fastQueue v) = Some h \<Longrightarrow> last (trace ?f) = DrainedCalled h"
    by blast
  from all show "notifiers ?f = notifiers (nrun (map completion_of ?rs) v)" by blast
  from all show "promises ?f = promises (nrun (map completion_of ?rs) v)" by blast
qed

text \<open>A task is given a free slot, by the executor on \<^verbatim>\<open>resume\<close> or after a completion,
  or at once when it is submitted.\<close>

lemma next_given_slot:
  assumes "length (running (fastQueue s)) < concurrency (fastQueue s)"
  shows "given_slot t s (fq_next [t] s)"
proof -
  have f: "free_slots (fastQueue s) \<noteq> 0" using assms by (simp add: free_slots_def)
  then have tk: "taken (free_slots (fastQueue s)) [t] = 1" by simp
  have "trace (fq_next [t] s) =
        trace s @ worker_start t @
        (if settles_at_call t
         then hook_calls (fst (worker t)) (snd (worker t)) s @
              (if running (fastQueue s) = [] then call_drain (fastQueue s) else [])
         else [])"
    using assms
    by (simp add: Let_def notifier_trace notifier_fastQueue hook_calls_def call_drain_def)
  moreover have "running (fastQueue (fq_next [t] s)) =
      running (fastQueue s) @ (if settles_at_call t then [] else [t])"
    unfolding fq_next_running tk by simp
  moreover have "pending (fastQueue (fq_next [t] s)) = []"
    unfolding fq_next_pending tk by simp
  moreover have "notifiers (fq_next [t] s) =
        notifiers (nrun (map completion_of (if settles_at_call t then [t] else [])) s)"
    "promises (fq_next [t] s) =
        promises (nrun (map completion_of (if settles_at_call t then [t] else [])) s)"
    using fq_next_handler [of "[t]" s] unfolding tk by simp_all
  ultimately show ?thesis
    unfolding given_slot_def by (simp only: fq_next_fields simp_thms)
qed

lemma start_given_slot:
  assumes "pending (fastQueue s) = []"
  shows "given_slot t s (fq_start t s)"
proof -
  have n: "newly_started (fastQueue s) = []" using assms by (rule newly_started_Nil)
  have "trace (fq_start t s) =
        trace s @ worker_start t @
        (if settles_at_call t
         then hook_calls (fst (worker t)) (snd (worker t)) s @
              (if running (fastQueue s) = [] then call_drain (fastQueue s) else [])
         else [])"
    using assms
    by (simp add: fq_start_def fq_release_def Let_def notifier_trace notifier_fastQueue
        hook_calls_def call_drain_def)
  moreover have "running (fastQueue (fq_start t s)) =
      running (fastQueue s) @ (if settles_at_call t then [] else [t])"
    by (simp add: fq_start_fields started_by_submit_def n)
  moreover have "pending (fastQueue (fq_start t s)) = []"
    using assms by (simp add: fq_start_fields)
  moreover have "notifiers (fq_start t s) =
        notifiers (nrun (map completion_of (if settles_at_call t then [t] else [])) s)"
    "promises (fq_start t s) =
        promises (nrun (map completion_of (if settles_at_call t then [t] else [])) s)"
    by (simp_all add: fq_start_handler started_by_submit_def n)
  ultimately show ?thesis
    unfolding given_slot_def by (simp only: fq_start_fields simp_thms)
qed

text \<open>After the task has been given its slot, the running tasks complete, oldest first.\<close>

lemma given_slot_finish:
  assumes "given_slot t s v"
  shows "isIdle (run (replicate (Suc (length (running (fastQueue s)))) (Settle 0)) v)"
    and "started_tasks (trace (run (replicate (Suc (length (running (fastQueue s)))) (Settle 0)) v)) =
           started_tasks (trace s) @ [t]"
    and "drained_calls (trace (run (replicate (Suc (length (running (fastQueue s)))) (Settle 0)) v)) =
           drained_calls (trace s) @
           (case drain (fastQueue s) of Some h \<Rightarrow> [h] | None \<Rightarrow> [])"
    and "drain (fastQueue s) = Some h \<Longrightarrow>
           last (trace (run (replicate (Suc (length (running (fastQueue s)))) (Settle 0)) v)) =
             DrainedCalled h"
    and "notifiers (run (replicate (Suc (length (running (fastQueue s)))) (Settle 0)) v) =
           notifiers (nrun (map completion_of
             (if settles_at_call t then t # running (fastQueue s)
              else running (fastQueue s) @ [t])) s)"
    and "promises (run (replicate (Suc (length (running (fastQueue s)))) (Settle 0)) v) =
           promises (nrun (map completion_of
             (if settles_at_call t then t # running (fastQueue s)
              else running (fastQueue s) @ [t])) s)"
proof -
  let ?n = "Suc (length (running (fastQueue s)))"
  let ?f = "run (replicate ?n (Settle 0)) v"
  let ?now = "if settles_at_call t then [t] else []"
  from assms have pv: "pending (fastQueue v) = []"
    and rv: "running (fastQueue v) =
               running (fastQueue s) @ (if settles_at_call t then [] else [t])"
    and tv: "trace v =
        trace s @ worker_start t @
        (if settles_at_call t
         then hook_calls (fst (worker t)) (snd (worker t)) s @
              (if running (fastQueue s) = [] then call_drain (fastQueue s) else [])
         else [])"
    and nv: "notifiers v = notifiers (nrun (map completion_of ?now) s)"
    and prv: "promises v = promises (nrun (map completion_of ?now) s)"
    and dv: "drain (fastQueue v) = drain (fastQueue s)"
    unfolding given_slot_def by blast+
  have len: "length (running (fastQueue v)) \<le> ?n" unfolding rv by simp
  note R = settle_remaining [OF pv len]
  have sv: "started_tasks (trace v) = started_tasks (trace s) @ [t]"
    unfolding tv by simp
  show "isIdle ?f" by (rule R(1))
  show "started_tasks (trace ?f) = started_tasks (trace s) @ [t]"
    unfolding R(2) sv ..
  show "drained_calls (trace ?f) =
      drained_calls (trace s) @ (case drain (fastQueue s) of Some h \<Rightarrow> [h] | None \<Rightarrow> [])"
    unfolding R(3) dv unfolding rv tv by (simp add: drained_call_drain)
  show "last (trace ?f) = DrainedCalled h" if h: "drain (fastQueue s) = Some h"
  proof (cases "running (fastQueue v) = []")
    case True
    then have "?f = v" by (rule settle_idle)
    moreover from True have "settles_at_call t" "running (fastQueue s) = []"
      unfolding rv by (simp_all split: if_splits)
    ultimately show ?thesis using tv h by (simp add: call_drain_def)
  next
    case False
    from R(4) [OF False] h dv show ?thesis by simp
  qed
  have o: "?now @ running (fastQueue v) =
      (if settles_at_call t then t # running (fastQueue s) else running (fastQueue s) @ [t])"
    unfolding rv by simp
  have "notifiers (nrun (map completion_of (running (fastQueue v))) v) =
          notifiers (nrun (map completion_of (?now @ running (fastQueue v))) s) \<and>
        promises (nrun (map completion_of (running (fastQueue v))) v) =
          promises (nrun (map completion_of (?now @ running (fastQueue v))) s)"
    using nrun_same [OF nv prv, of "map completion_of (running (fastQueue v))"]
    by (simp only: map_append nrun_append)
  then show "notifiers ?f = notifiers (nrun (map completion_of
             (if settles_at_call t then t # running (fastQueue s)
              else running (fastQueue s) @ [t])) s)"
    and "promises ?f = promises (nrun (map completion_of
             (if settles_at_call t then t # running (fastQueue s)
              else running (fastQueue s) @ [t])) s)"
    unfolding R(5) R(6) o by blast+
qed

lemma given_slot_paused:
  "given_slot t s v \<Longrightarrow> given_slot t s (v\<lparr>fastQueue := (fastQueue v)\<lparr>paused := b\<rparr>\<rparr>)"
  by (simp add: given_slot_def)

lemma resume_Nil:
  "pending (fastQueue q) = [] \<Longrightarrow>
   resume q = q\<lparr>fastQueue := (fastQueue q)\<lparr>paused := False\<rparr>\<rparr>"
  by (simp add: resume_def fq_resume_def Let_def)

lemma resume_single:
  "pending (fastQueue q) = [t] \<Longrightarrow>
   resume q = fq_next [t] (q\<lparr>fastQueue := (fastQueue q)\<lparr>paused := False\<rparr>\<rparr>)"
  by (simp add: resume_def fq_resume_def Let_def del: fq_next.simps)

text \<open>
  C10. After \<^verbatim>\<open>kill()\<close> on any queue (with at most \<^verbatim>\<open>concurrency\<close> tasks running,
  as in every reachable state, and a concurrency of at least 1), a \<^verbatim>\<open>push\<close> admits the
  task: the executor queues it or starts it at once, as on a queue that was never killed,
  and the \<^verbatim>\<open>drained\<close> slot holds the hook the caller assigned, if any. Once the queue
  is resumed (which changes nothing unless it was paused) and the running tasks have
  completed, oldest first, the operation of the pushed task has been called, exactly once
  and as the only new call; its completion has gone through \<^verbatim>\<open>#notifier\<close> in turn
  with those of the tasks that were running, resolving the waiting notifiers in order (a
  task whose operation throws at the call completes as soon as it gets a slot, before the
  tasks then running, and any other task after them); the caller's hook, if one is
  assigned, has been called once more, as the last call, for the natural drain; and the
  queue is idle.
\<close>

theorem usable_after_kill:
  assumes "length (running (fastQueue q)) \<le> concurrency (fastQueue q)"
    and "1 \<le> concurrency (fastQueue q)"
  shows "(queued (kill q) \<longrightarrow>
            pending (fastQueue (push task (kill q))) = [task] \<and>
            running (fastQueue (push task (kill q))) = running (fastQueue q)) \<and>
         (\<not> queued (kill q) \<longrightarrow>
            pending (fastQueue (push task (kill q))) = [] \<and>
            started_tasks (trace (push task (kill q))) = started_tasks (trace q) @ [task]) \<and>
         get_drained (push task (kill q)) = drainCallback q \<and>
         started_tasks (trace (run (Resume # replicate (Suc (length (running (fastQueue q)))) (Settle 0))
                                 (push task (kill q)))) =
           started_tasks (trace q) @ [task] \<and>
         notifiers (run (Resume # replicate (Suc (length (running (fastQueue q)))) (Settle 0))
                      (push task (kill q))) =
           notifiers (nrun (map completion_of
             (completion_order (concurrency (fastQueue q)) (running (fastQueue q)) task)) q) \<and>
         promises (run (Resume # replicate (Suc (length (running (fastQueue q)))) (Settle 0))
                     (push task (kill q))) =
           promises (nrun (map completion_of
             (completion_order (concurrency (fastQueue q)) (running (fastQueue q)) task)) q) \<and>
         drained_calls (trace (run (Resume # replicate (Suc (length (running (fastQueue q)))) (Settle 0))
                                 (push task (kill q)))) =
           drained_calls (trace (kill q)) @
           (case drainCallback q of Some h \<Rightarrow> [h] | None \<Rightarrow> []) \<and>
         (drainCallback q = Some h \<longrightarrow>
            last (trace (run (Resume # replicate (Suc (length (running (fastQueue q)))) (Settle 0))
                           (push task (kill q)))) = DrainedCalled h) \<and>
         isIdle (run (Resume # replicate (Suc (length (running (fastQueue q)))) (Settle 0))
                   (push task (kill q)))"
proof -
  let ?rs = "running (fastQueue q)"
  let ?c = "concurrency (fastQueue q)"
  let ?k = "kill q"
  let ?p = "push task ?k"
  let ?r = "resume ?p"
  let ?f = "run (Resume # replicate (Suc (length ?rs)) (Settle 0)) ?p"
  let ?ac = "added_calls task ?k"
  let ?ord = "\<lambda>s. if settles_at_call task then task # running (fastQueue s)
                   else running (fastQueue s) @ [task]"
  have k: "pending (fastQueue ?k) = []" "running (fastQueue ?k) = ?rs"
    "drain (fastQueue ?k) = drainCallback q" "concurrency (fastQueue ?k) = ?c"
    "paused (fastQueue ?k) = paused (fastQueue q)"
    "notifiers ?k = notifiers q" "promises ?k = promises q"
    "started_tasks (trace ?k) = started_tasks (trace q)"
    by (simp_all add: kill_eq)
  have adm1: "queued ?k \<longrightarrow>
      pending (fastQueue ?p) = [task] \<and> running (fastQueue ?p) = ?rs"
    using k by (simp add: push_queued)
  have adm2: "\<not> queued ?k \<longrightarrow>
      pending (fastQueue ?p) = [] \<and>
      started_tasks (trace ?p) = started_tasks (trace q) @ [task]"
    using k by (simp add: push_started fq_start_fields started_by_submit_def newly_started_Nil)
  have dr: "get_drained ?p = drainCallback q"
    using k by (simp add: get_drained_def push_fields)
  have f: "?f = run (replicate (Suc (length ?rs)) (Settle 0)) ?r" by simp
  have key: "\<exists>s v pre.
      ?f = run (replicate (Suc (length (running (fastQueue s)))) (Settle 0)) v \<and>
      given_slot task s v \<and>
      started_tasks (trace s) = started_tasks (trace q) \<and>
      drained_calls (trace s) = drained_calls (trace ?k) \<and>
      drain (fastQueue s) = drainCallback q \<and>
      notifiers s = notifiers (nrun (map completion_of pre) q) \<and>
      promises s = promises (nrun (map completion_of pre) q) \<and>
      completion_order ?c ?rs task = pre @ ?ord s"
  proof (cases "queued ?k")
    case False
    let ?s = "emit ?ac ?k"
    have slot: "length ?rs < ?c" using False k by (simp add: queued_def)
    have p: "?p = fq_start task ?s" using False by (rule push_started)
    have "given_slot task ?s ?p" unfolding p by (rule start_given_slot) (simp add: k)
    moreover from this have "pending (fastQueue ?p) = []" by (simp add: given_slot_def)
    then have "?r = ?p\<lparr>fastQueue := (fastQueue ?p)\<lparr>paused := False\<rparr>\<rparr>" by (rule resume_Nil)
    ultimately have g: "given_slot task ?s ?r" by (simp only: given_slot_paused)
    have "?f = run (replicate (Suc (length (running (fastQueue ?s)))) (Settle 0)) ?r"
      unfolding f by (simp add: k)
    moreover have "completion_order ?c ?rs task = [] @ ?ord ?s"
      using slot by (simp add: completion_order_def k)
    moreover have "started_tasks (trace ?s) = started_tasks (trace q)"
      "drained_calls (trace ?s) = drained_calls (trace ?k)"
      "drain (fastQueue ?s) = drainCallback q"
      "notifiers ?s = notifiers (nrun (map completion_of []) q)"
      "promises ?s = promises (nrun (map completion_of []) q)"
      by (simp_all add: k)
    ultimately show ?thesis using g by blast
  next
    case True
    then have p: "?p = ?k\<lparr>fastQueue := (fastQueue ?k)\<lparr>pending := pending (fastQueue ?k) @ [task]\<rparr>,
                          trace := trace ?k @ ?ac\<rparr>"
      by (rule push_queued)
    let ?s = "?p\<lparr>fastQueue := (fastQueue ?p)\<lparr>paused := False\<rparr>\<rparr>"
    have pp: "pending (fastQueue ?p) = [task]" unfolding p by (simp add: k)
    have r: "?r = fq_next [task] ?s" using pp by (rule resume_single)
    have s: "running (fastQueue ?s) = ?rs" "concurrency (fastQueue ?s) = ?c"
      "started_tasks (trace ?s) = started_tasks (trace q)"
      "drained_calls (trace ?s) = drained_calls (trace ?k)"
      "drain (fastQueue ?s) = drainCallback q"
      "notifiers ?s = notifiers q" "promises ?s = promises q"
      "\<not> paused (fastQueue ?s)"
      unfolding p by (simp_all add: k)
    show ?thesis
    proof (cases "length ?rs < ?c")
      case slot: True
      have g: "given_slot task ?s ?r"
        unfolding r by (rule next_given_slot) (use s slot in simp)
      have "?f = run (replicate (Suc (length (running (fastQueue ?s)))) (Settle 0)) ?r"
        unfolding f by (simp only: s)
      moreover have "completion_order ?c ?rs task = [] @ ?ord ?s"
        using slot s by (simp add: completion_order_def)
      moreover have "notifiers ?s = notifiers (nrun (map completion_of []) q)"
        "promises ?s = promises (nrun (map completion_of []) q)"
        using s by simp_all
      ultimately show ?thesis using g s(3,4,5) by blast
    next
      case False
      with assms have full: "length ?rs = ?c" "?rs \<noteq> []" by auto
      then obtain r0 rs' where rs: "?rs = r0 # rs'" by (cases ?rs) auto
      have rr: "pending (fastQueue ?r) = [task]" "running (fastQueue ?r) = r0 # rs'"
        "concurrency (fastQueue ?r) = ?c" "\<not> paused (fastQueue ?r)"
        "trace ?r = trace ?s" "notifiers ?r = notifiers q" "promises ?r = promises q"
        "drain (fastQueue ?r) = drainCallback q"
        unfolding r using False s rs by simp_all
      have i: "0 < length (running (fastQueue ?r))" using rr by simp
      let ?u = "(notifier (fst (worker r0)) (snd (worker r0)) ?r)
                  \<lparr>fastQueue := after_settle 0 (fastQueue ?r)\<rparr>"
      let ?v = "fq_next [task] ?u"
      have st: "settle_task 0 ?r = ?v"
        using settle_task_eq [OF i] rr by (simp add: fq_release_def del: fq_next.simps)
      have u: "running (fastQueue ?u) = rs'" "concurrency (fastQueue ?u) = ?c"
        "started_tasks (trace ?u) = started_tasks (trace q)"
        "drained_calls (trace ?u) = drained_calls (trace ?k)"
        "drain (fastQueue ?u) = drainCallback q"
        using rr s by (simp_all add: notifier_trace)
      have nu: "notifiers ?u = notifiers (nrun (map completion_of [r0]) q)"
        "promises ?u = promises (nrun (map completion_of [r0]) q)"
        using notifier_same [OF rr(6,7), of "fst (worker r0)" "snd (worker r0)"]
        by (simp_all add: completion_of_def)
      have g: "given_slot task ?u ?v"
        by (rule next_given_slot) (use u full rs in simp)
      have "?f = run (replicate (length ?rs) (Settle 0)) (settle_task 0 ?r)"
        unfolding f by simp
      then have "?f = run (replicate (Suc (length (running (fastQueue ?u)))) (Settle 0)) ?v"
        unfolding st u rs by simp
      moreover have "completion_order ?c ?rs task = [r0] @ ?ord ?u"
        using full u rs by (simp add: completion_order_def)
      ultimately show ?thesis using g u(3,4,5) nu by blast
    qed
  qed
  then obtain s v pre where
    fv: "?f = run (replicate (Suc (length (running (fastQueue s)))) (Settle 0)) v"
    and g: "given_slot task s v"
    and ss: "started_tasks (trace s) = started_tasks (trace q)"
    and ds: "drained_calls (trace s) = drained_calls (trace ?k)"
    and dd: "drain (fastQueue s) = drainCallback q"
    and ns: "notifiers s = notifiers (nrun (map completion_of pre) q)"
    and ps: "promises s = promises (nrun (map completion_of pre) q)"
    and co: "completion_order ?c ?rs task = pre @ ?ord s"
    by blast
  note G = given_slot_finish [OF g]
  have c1: "isIdle ?f" unfolding fv by (rule G(1))
  have c2: "started_tasks (trace ?f) = started_tasks (trace q) @ [task]"
    unfolding fv G(2) ss ..
  have c3: "drained_calls (trace ?f) =
      drained_calls (trace ?k) @ (case drainCallback q of Some h \<Rightarrow> [h] | None \<Rightarrow> [])"
    unfolding fv G(3) ds dd ..
  have c4: "drainCallback q = Some h \<longrightarrow> last (trace ?f) = DrainedCalled h"
    unfolding fv using G(4) [of h] dd by simp
  have "notifiers (nrun (map completion_of (?ord s)) s) =
          notifiers (nrun (map completion_of (pre @ ?ord s)) q) \<and>
        promises (nrun (map completion_of (?ord s)) s) =
          promises (nrun (map completion_of (pre @ ?ord s)) q)"
    using nrun_same [OF ns ps, of "map completion_of (?ord s)"]
    by (simp only: map_append nrun_append)
  then have c5: "notifiers ?f = notifiers (nrun (map completion_of (completion_order ?c ?rs task)) q)"
    and c6: "promises ?f = promises (nrun (map completion_of (completion_order ?c ?rs task)) q)"
    unfolding fv G(5) G(6) co by blast+
  from adm1 adm2 dr c1 c2 c3 c4 c5 c6 show ?thesis by blast
qed

theorem usable_after_kill_witness:
  "length (running (fastQueue (snd (createNotifier (set_drained 7 (new_DeferQueue None)))))) \<le>
     concurrency (fastQueue (snd (createNotifier (set_drained 7 (new_DeferQueue None))))) \<and>
   1 \<le> concurrency (fastQueue (snd (createNotifier (set_drained 7 (new_DeferQueue None))))) \<and>
   \<not> queued (kill (snd (createNotifier (set_drained 7 (new_DeferQueue None))))) \<and>
   drainCallback (snd (createNotifier (set_drained 7 (new_DeferQueue None)))) = Some 7 \<and>
   promises (run [Resume, Settle 0]
      (push (Callable ''sendEmail'' (Returns (JObj [(''sent'', JBool True)])))
         (kill (snd (createNotifier (set_drained 7 (new_DeferQueue None))))))) =
     [Resolved (StatusFulfilled
        \<lparr>name = ''sendEmail'', response = Some (JObj [(''sent'', JBool True)])\<rparr>)] \<and>
   drained_calls (trace (run [Resume, Settle 0]
      (push (Callable ''sendEmail'' (Returns (JObj [(''sent'', JBool True)])))
         (kill (snd (createNotifier (set_drained 7 (new_DeferQueue None)))))))) = [7, 7] \<and>
   last (trace (run [Resume, Settle 0]
      (push (Callable ''sendEmail'' (Returns (JObj [(''sent'', JBool True)])))
         (kill (snd (createNotifier (set_drained 7 (new_DeferQueue None)))))))) =
     DrainedCalled 7 \<and>
   isIdle (run [Resume, Settle 0]
      (push (Callable ''sendEmail'' (Returns (JObj [(''sent'', JBool True)])))
         (kill (snd (createNotifier (set_drained 7 (new_DeferQueue None))))))) \<and>
   queued (kill (run [SetDrained 7, CreateNotifier, CreateNotifier,
                      Push (Callable ''a'' (Returns JNull)), Pause] (new_DeferQueue (Some 2)))) \<and>
   pending (fastQueue (push (Callable ''boom'' (ThrowsAtCall (JError ''failed'')))
      (kill (run [SetDrained 7, CreateNotifier, CreateNotifier,
                  Push (Callable ''a'' (Returns JNull)), Pause] (new_DeferQueue (Some 2)))))) =
     [Callable ''boom'' (ThrowsAtCall (JError ''failed''))] \<and>
   promises (run [Resume, Settle 0, Settle 0]
      (push (Callable ''boom'' (ThrowsAtCall (JError ''failed'')))
         (kill (run [SetDrained 7, CreateNotifier, CreateNotifier,
                     Push (Callable ''a'' (Returns JNull)), Pause] (new_DeferQueue (Some 2)))))) =
     [Resolved (StatusRejected (JError ''failed'')),
      Resolved (StatusFulfilled \<lparr>name = ''a'', response = Some JNull\<rparr>)]"
proof -
  let ?q = "snd (createNotifier (set_drained 7 (new_DeferQueue None)))"
  let ?t = "Callable ''sendEmail'' (Returns (JObj [(''sent'', JBool True)]))"
  let ?a = "Callable ''a'' (Returns JNull)"
  let ?boom = "Callable ''boom'' (ThrowsAtCall (JError ''failed''))"
  let ?q2 = "run [SetDrained 7, CreateNotifier, CreateNotifier, Push ?a, Pause]
               (new_DeferQueue (Some 2))"
  have q: "?q = \<lparr>drainCallback = Some 7,
      fastQueue = \<lparr>pending = [], running = [], paused = False, concurrency = 10,
                   drain = Some 7\<rparr>,
      notifiers = [0], onError = None, taskCompleted = None, taskAdded = None,
      promises = [Pending], trace = []\<rparr>"
    by (simp add: new_DeferQueue_def set_drained_def createNotifier_def)
  have q2: "?q2 = \<lparr>drainCallback = Some 7,
      fastQueue = \<lparr>pending = [], running = [?a], paused = True, concurrency = 2,
                   drain = Some 7\<rparr>,
      notifiers = [0, 1], onError = None, taskCompleted = None, taskAdded = None,
      promises = [Pending, Pending], trace = [Invoked CallItself ?a]\<rparr>"
    by (simp add: new_DeferQueue_def set_drained_def createNotifier_def push_def fq_push_def
        fq_start_def worker_start_def settles_at_call_def emit_def pause_def fq_pause_def
        Let_def)
  have h: "length (running (fastQueue ?q)) \<le> concurrency (fastQueue ?q)"
    "1 \<le> concurrency (fastQueue ?q)"
    unfolding q by simp_all
  have h2: "length (running (fastQueue ?q2)) \<le> concurrency (fastQueue ?q2)"
    "1 \<le> concurrency (fastQueue ?q2)"
    unfolding q2 by simp_all
  have nq: "\<not> queued (kill ?q)" and dc: "drainCallback ?q = Some 7"
    unfolding q by (simp_all add: queued_def kill_eq)
  have qq: "queued (kill ?q2)"
    unfolding q2 by (simp add: queued_def kill_eq)
  have r: "replicate (Suc (length (running (fastQueue ?q)))) (Settle 0) = [Settle 0]"
    unfolding q by simp
  have r2: "replicate (Suc (length (running (fastQueue ?q2)))) (Settle 0) = [Settle 0, Settle 0]"
    unfolding q2 by simp
  from usable_after_kill [OF h, of ?t 7] dc
  have "promises (run [Resume, Settle 0] (push ?t (kill ?q))) =
          promises (nrun (map completion_of
            (completion_order (concurrency (fastQueue ?q)) (running (fastQueue ?q)) ?t)) ?q) \<and>
        drained_calls (trace (run [Resume, Settle 0] (push ?t (kill ?q)))) =
          drained_calls (trace (kill ?q)) @ (case drainCallback ?q of Some h \<Rightarrow> [h] | None \<Rightarrow> []) \<and>
        last (trace (run [Resume, Settle 0] (push ?t (kill ?q)))) = DrainedCalled 7 \<and>
        isIdle (run [Resume, Settle 0] (push ?t (kill ?q)))"
    unfolding r by blast
  moreover have "promises (nrun (map completion_of
            (completion_order (concurrency (fastQueue ?q)) (running (fastQueue ?q)) ?t)) ?q) =
      [Resolved (StatusFulfilled
        \<lparr>name = ''sendEmail'', response = Some (JObj [(''sent'', JBool True)])\<rparr>)]"
    unfolding q
    by (simp add: completion_order_def settles_at_call_def completion_of_def worker_def
        notifier_def deferred_resolve_def)
  moreover have "drained_calls (trace (kill ?q)) @
      (case drainCallback ?q of Some h \<Rightarrow> [h] | None \<Rightarrow> []) = [7, 7]"
    unfolding q by (simp add: kill_eq call_drain_def)
  ultimately have c1: "promises (run [Resume, Settle 0] (push ?t (kill ?q))) =
      [Resolved (StatusFulfilled
        \<lparr>name = ''sendEmail'', response = Some (JObj [(''sent'', JBool True)])\<rparr>)]"
    "drained_calls (trace (run [Resume, Settle 0] (push ?t (kill ?q)))) = [7, 7]"
    "last (trace (run [Resume, Settle 0] (push ?t (kill ?q)))) = DrainedCalled 7"
    "isIdle (run [Resume, Settle 0] (push ?t (kill ?q)))"
    by simp_all
  from usable_after_kill [OF h2, of ?boom] qq
  have "pending (fastQueue (push ?boom (kill ?q2))) = [?boom] \<and>
        promises (run [Resume, Settle 0, Settle 0] (push ?boom (kill ?q2))) =
          promises (nrun (map completion_of
            (completion_order (concurrency (fastQueue ?q2)) (running (fastQueue ?q2)) ?boom)) ?q2)"
    unfolding r2 by blast
  moreover have "promises (nrun (map completion_of
            (completion_order (concurrency (fastQueue ?q2)) (running (fastQueue ?q2)) ?boom)) ?q2) =
      [Resolved (StatusRejected (JError ''failed'')),
       Resolved (StatusFulfilled \<lparr>name = ''a'', response = Some JNull\<rparr>)]"
    unfolding q2
    by (simp add: completion_order_def settles_at_call_def completion_of_def worker_def
        notifier_def deferred_resolve_def)
  ultimately have c2: "pending (fastQueue (push ?boom (kill ?q2))) = [?boom]"
    "promises (run [Resume, Settle 0, Settle 0] (push ?boom (kill ?q2))) =
      [Resolved (StatusRejected (JError ''failed'')),
       Resolved (StatusFulfilled \<lparr>name = ''a'', response = Some JNull\<rparr>)]"
    by simp_all
  from h nq dc c1 qq c2 show ?thesis by (simp only: simp_thms)
qed

section \<open>Reachable states\<close>

lemma step_notifiers_pending:
  assumes "notifiers_pending q"
  shows "notifiers_pending (do_step s q)"
proof (cases "s = CreateNotifier")
  case True
  with assms show ?thesis by (simp add: createNotifier_pending)
next
  case False
  from step_handler [OF False, of q]
  have "notifiers_pending (do_step s q) =
        notifiers_pending (nrun (map completion_of (delivered s q)) q)"
    by (intro notifiers_pending_same) simp_all
  with nrun_pending [OF assms] show ?thesis by simp
qed

lemma taken_bound:
  "length (filter (\<lambda>t. \<not> settles_at_call t) (take (taken free ts) ts)) \<le> free"
proof (induction ts arbitrary: free)
  case Nil
  then show ?case by simp
next
  case (Cons t ts)
  from Cons.IH [of free] Cons.IH [of "free - 1"] show ?case
    by (cases "free = 0") auto
qed

lemma newly_started_bound:
  "length (filter (\<lambda>t. \<not> settles_at_call t) (newly_started fq)) \<le> free_slots fq"
  using taken_bound [of "free_slots fq" "pending fq"] by (simp add: newly_started_def)

lemma step_concurrency:
  "concurrency (fastQueue (do_step s q)) = concurrency (fastQueue q)"
proof (cases s)
  case (Settle i)
  then show ?thesis
    by (cases "i < length (running (fastQueue q))")
       (simp_all add: settle_task_fields, simp add: settle_task_def)
qed (simp_all add: push_fields unshift_fields createNotifier_fields pause_eq resume_fields
      kill_eq set_drained_fields)

lemma step_running_bounded:
  assumes "length (running (fastQueue q)) \<le> concurrency (fastQueue q)"
  shows "length (running (fastQueue (do_step s q))) \<le> concurrency (fastQueue (do_step s q))"
proof -
  have "length (running (fastQueue (do_step s q))) \<le> concurrency (fastQueue q)"
  proof (cases s)
    case (Push t)
    show ?thesis
    proof (cases "queued q")
      case True
      with Push assms show ?thesis by (simp add: push_queued)
    next
      case False
      with Push newly_started_bound [of "fastQueue q"] show ?thesis
        by (auto simp: push_started fq_start_fields started_by_submit_def free_slots_def
            queued_def)
    qed
  next
    case (Unshift t)
    show ?thesis
    proof (cases "queued q")
      case True
      with Unshift assms show ?thesis by (simp add: unshift_queued)
    next
      case False
      with Unshift newly_started_bound [of "fastQueue q"] show ?thesis
        by (auto simp: unshift_started fq_start_fields started_by_submit_def free_slots_def
            queued_def)
    qed
  next
    case Resume
    with assms taken_bound [of "free_slots (fastQueue q)" "pending (fastQueue q)"]
    show ?thesis
      by (simp add: resume_fields started_by_resume_def free_slots_def)
  next
    case (Settle i)
    show ?thesis
    proof (cases "i < length (running (fastQueue q))")
      case True
      with assms Settle length_without [OF True]
        newly_started_bound [of "after_settle i (fastQueue q)"]
      show ?thesis
        by (simp add: settle_task_fields free_slots_def)
    next
      case False
      with assms Settle show ?thesis by (simp add: settle_task_def)
    qed
  qed (use assms in \<open>simp_all add: createNotifier_fields pause_eq kill_eq set_drained_fields\<close>)
  then show ?thesis by (simp only: step_concurrency)
qed

text \<open>What holds in every state that a run of steps from a new queue reaches.\<close>

lemma run_notifiers_pending:
  "notifiers_pending q \<Longrightarrow> notifiers_pending (run ss q)"
  by (induction ss arbitrary: q) (simp_all add: step_notifiers_pending)

lemma run_running_bounded:
  "length (running (fastQueue q)) \<le> concurrency (fastQueue q) \<Longrightarrow>
   length (running (fastQueue (run ss q))) \<le> concurrency (fastQueue (run ss q))"
  by (induction ss arbitrary: q) (simp_all add: step_running_bounded)

lemma reachable_invariants:
  "notifiers_pending (run ss (new_DeferQueue c)) \<and>
   length (running (fastQueue (run ss (new_DeferQueue c)))) \<le>
     concurrency (fastQueue (run ss (new_DeferQueue c))) \<and>
   drain (fastQueue (run ss (new_DeferQueue c))) = drainCallback (run ss (new_DeferQueue c))"
proof -
  have "notifiers_pending (new_DeferQueue c)"
    by (simp add: notifiers_pending_def new_DeferQueue_fields)
  moreover have "length (running (fastQueue (new_DeferQueue c))) \<le>
      concurrency (fastQueue (new_DeferQueue c))"
    by (simp add: new_DeferQueue_fields)
  moreover have "drain (fastQueue (new_DeferQueue c)) = drainCallback (new_DeferQueue c)"
    by (simp add: new_DeferQueue_fields)
  ultimately show ?thesis
    by (simp add: run_notifiers_pending run_running_bounded run_drain_synced)
qed

end
